theory Spec2Isabelle
  imports Complex_Main "HOL-Library.Word" "HOL-Library.Sublist"
begin

section \<open>JavaScript strings\<close>

text \<open>
  A JavaScript string is a sequence of UTF-16 code units. \<open>length\<close>, \<open>trim\<close>,
  \<open>startsWith\<close> and the regular expressions of the source (none has the \<open>u\<close> flag)
  all work on code units, so a string is a list of 16-bit words.
\<close>

type_synonym jschar = "16 word"
type_synonym jsstring = "jschar list"

definition js :: "string \<Rightarrow> jsstring" where
  \<comment> \<open>an ASCII literal as a JavaScript string\<close>
  "js s = map (\<lambda>c. of_nat (of_char c)) s"

definition QUOTE :: jschar where "QUOTE = 0x22"
definition BACKSLASH :: jschar where "BACKSLASH = 0x5C"
definition NEWLINE :: jschar where "NEWLINE = 0x0A"
definition BULLET :: jschar where "BULLET = 0x2022"

definition isLineTerminator :: "jschar \<Rightarrow> bool" where
  \<comment> \<open>ECMAScript LineTerminator: LF, CR, LS, PS\<close>
  "isLineTerminator c \<longleftrightarrow> c = 0x0A \<or> c = 0x0D \<or> c = 0x2028 \<or> c = 0x2029"

definition isWhiteSpace :: "jschar \<Rightarrow> bool" where
  \<comment> \<open>what \<open>trim\<close> strips and \<open>\s\<close> matches: ECMAScript WhiteSpace and LineTerminator\<close>
  "isWhiteSpace c \<longleftrightarrow>
     c = 0x09 \<or> c = 0x0B \<or> c = 0x0C \<or> c = 0x20 \<or> c = 0xA0 \<or> c = 0x1680 \<or>
     (0x2000 \<le> c \<and> c \<le> 0x200A) \<or> c = 0x202F \<or> c = 0x205F \<or> c = 0x3000 \<or>
     c = 0xFEFF \<or> isLineTerminator c"

definition trim :: "jsstring \<Rightarrow> jsstring" where
  "trim s = rev (dropWhile isWhiteSpace (rev (dropWhile isWhiteSpace s)))"

definition startsWith :: "jsstring \<Rightarrow> jsstring \<Rightarrow> bool" where
  \<comment> \<open>\<open>s.startsWith(p)\<close>\<close>
  "startsWith s p \<longleftrightarrow> take (length p) s = p"

fun includes_str :: "jsstring \<Rightarrow> jsstring \<Rightarrow> bool" where
  \<comment> \<open>\<open>s.includes(p)\<close>\<close>
  "includes_str [] p \<longleftrightarrow> p = []"
| "includes_str (c # cs) p \<longleftrightarrow> startsWith (c # cs) p \<or> includes_str cs p"

section \<open>Regular expressions\<close>

text \<open>
  The regular expressions of the source are alternatives of sequences of: one character
  of a class, an optional character (\<open>x?\<close>), a greedy repetition of a class with a lower
  bound (\<open>x*\<close>, \<open>x+\<close>, \<open>x{3,}\<close>), a lazy repetition (\<open>x*?\<close>) and at most one capture
  group. The matcher below is the backtracking matcher of ECMAScript restricted to these
  forms: an alternative is matched left to right against a continuation, a greedy
  repetition tries the longest run first, a lazy one the shortest.
\<close>

datatype atom =
    Chr "jschar \<Rightarrow> bool"
  | Opt "jschar \<Rightarrow> bool"
  | Rep "jschar \<Rightarrow> bool" nat
  | RepLazy "jschar \<Rightarrow> bool"
  | GOpen
  | GClose

type_synonym regex = "atom list list"

text \<open>The state of a match: where group 1 was opened (the input left there) and its text.\<close>

type_synonym mstate = "jsstring \<times> jsstring option"

fun rep_greedy :: "(jschar \<Rightarrow> bool) \<Rightarrow> nat \<Rightarrow> (jsstring \<Rightarrow> 'r option) \<Rightarrow> jsstring \<Rightarrow> 'r option" where
  "rep_greedy P n k [] = (if n = 0 then k [] else None)"
| "rep_greedy P n k (c # cs) =
     (if P c then (case rep_greedy P (n - 1) k cs of
                     Some r \<Rightarrow> Some r
                   | None \<Rightarrow> if n = 0 then k (c # cs) else None)
      else if n = 0 then k (c # cs) else None)"

fun rep_lazy :: "(jschar \<Rightarrow> bool) \<Rightarrow> (jsstring \<Rightarrow> 'r option) \<Rightarrow> jsstring \<Rightarrow> 'r option" where
  "rep_lazy P k [] = k []"
| "rep_lazy P k (c # cs) =
     (case k (c # cs) of
        Some r \<Rightarrow> Some r
      | None \<Rightarrow> if P c then rep_lazy P k cs else None)"

primrec rx_seq :: "atom list \<Rightarrow> mstate \<Rightarrow> jsstring \<Rightarrow> (mstate \<times> jsstring) option" where
  "rx_seq [] = (\<lambda>st s. Some (st, s))"
| "rx_seq (a # as) = (\<lambda>st s. case a of
      Chr P \<Rightarrow> (case s of [] \<Rightarrow> None | c # cs \<Rightarrow> if P c then rx_seq as st cs else None)
    | Opt P \<Rightarrow> (case s of
                  [] \<Rightarrow> rx_seq as st []
                | c # cs \<Rightarrow> if P c then (case rx_seq as st cs of
                                          Some r \<Rightarrow> Some r
                                        | None \<Rightarrow> rx_seq as st s)
                           else rx_seq as st s)
    | Rep P n \<Rightarrow> rep_greedy P n (rx_seq as st) s
    | RepLazy P \<Rightarrow> rep_lazy P (rx_seq as st) s
    | GOpen \<Rightarrow> rx_seq as (s, snd st) s
    | GClose \<Rightarrow> rx_seq as (fst st, Some (take (length (fst st) - length s) (fst st))) s)"

fun rx_exec :: "regex \<Rightarrow> jsstring \<Rightarrow> (mstate \<times> jsstring) option" where
  \<comment> \<open>a match starting at the head of the input: the captures and the input left after it\<close>
  "rx_exec [] s = None"
| "rx_exec (alt # alts) s =
     (case rx_seq alt ([], None) s of Some r \<Rightarrow> Some r | None \<Rightarrow> rx_exec alts s)"

fun rx_search :: "regex \<Rightarrow> jsstring \<Rightarrow> (mstate \<times> jsstring) option" where
  \<comment> \<open>the leftmost match, as \<open>s.match(re)\<close> without the \<open>g\<close> flag finds it\<close>
  "rx_search re [] = rx_exec re []"
| "rx_search re (c # cs) =
     (case rx_exec re (c # cs) of Some r \<Rightarrow> Some r | None \<Rightarrow> rx_search re cs)"

datatype repl = Str jsstring | Group1

fun expand :: "repl \<Rightarrow> mstate \<Rightarrow> jsstring" where
  \<comment> \<open>the replacement text: a constant, or \<open>'$1'\<close>\<close>
  "expand (Str r) st = r"
| "expand Group1 st = (case snd st of Some g \<Rightarrow> g | None \<Rightarrow> [])"

text \<open>
  \<open>s.replace(re, r)\<close> with the \<open>g\<close> flag: matches are looked for from left to right,
  each one starting where the one before ended (one character further after an empty
  match); what is between the matches is copied. The counter is the number of characters
  of the current match still to skip.
\<close>

fun replace_from :: "regex \<Rightarrow> repl \<Rightarrow> nat \<Rightarrow> jsstring \<Rightarrow> jsstring" where
  "replace_from re rp k [] =
     (if k = 0 then (case rx_exec re [] of Some (st, rest) \<Rightarrow> expand rp st | None \<Rightarrow> [])
      else [])"
| "replace_from re rp (Suc k) (c # cs) = replace_from re rp k cs"
| "replace_from re rp 0 (c # cs) =
     (case rx_exec re (c # cs) of
        None \<Rightarrow> c # replace_from re rp 0 cs
      | Some (st, rest) \<Rightarrow>
          (let n = length (c # cs) - length rest
           in expand rp st @ (if n = 0 then c # replace_from re rp 0 cs
                              else replace_from re rp (n - 1) cs)))"

definition replace_all :: "jsstring \<Rightarrow> regex \<Rightarrow> repl \<Rightarrow> jsstring" where
  "replace_all s re rp = replace_from re rp 0 s"

text \<open>\<open>s.match(re)\<close> with the \<open>g\<close> flag: the matched substrings; \<open>null\<close> is the empty list.\<close>

fun match_from :: "regex \<Rightarrow> nat \<Rightarrow> jsstring \<Rightarrow> jsstring list" where
  "match_from re k [] =
     (if k = 0 then (case rx_exec re [] of Some (st, rest) \<Rightarrow> [[]] | None \<Rightarrow> []) else [])"
| "match_from re (Suc k) (c # cs) = match_from re k cs"
| "match_from re 0 (c # cs) =
     (case rx_exec re (c # cs) of
        None \<Rightarrow> match_from re 0 cs
      | Some (st, rest) \<Rightarrow>
          (let n = length (c # cs) - length rest
           in take n (c # cs) # (if n = 0 then match_from re 0 cs
                                 else match_from re (n - 1) cs)))"

definition match_all :: "jsstring \<Rightarrow> regex \<Rightarrow> jsstring list" where
  "match_all s re = match_from re 0 s"

text \<open>Pieces of patterns: a literal, a literal under the \<open>i\<close> flag, character classes.\<close>

definition lit :: "jsstring \<Rightarrow> atom list" where
  "lit s = map (\<lambda>c. Chr (\<lambda>x. x = c)) s"

definition upcase :: "jschar \<Rightarrow> jschar" where
  \<comment> \<open>the canonical form under the \<open>i\<close> flag, for the ASCII letters the patterns contain: no
     character beyond ASCII is folded to an ASCII one\<close>
  "upcase c = (if 0x61 \<le> c \<and> c \<le> 0x7A then c - 0x20 else c)"

definition lit_i :: "jsstring \<Rightarrow> atom list" where
  "lit_i s = map (\<lambda>c. Chr (\<lambda>x. upcase x = upcase c)) s"

definition dot :: "jschar \<Rightarrow> bool" where
  "dot c \<longleftrightarrow> \<not> isLineTerminator c"

definition is_char :: "jschar \<Rightarrow> jschar \<Rightarrow> bool" where
  "is_char c x \<longleftrightarrow> x = c"

definition not_char :: "jschar \<Rightarrow> jschar \<Rightarrow> bool" where
  "not_char c x \<longleftrightarrow> x \<noteq> c"

definition one_of :: "jsstring \<Rightarrow> jschar \<Rightarrow> bool" where
  "one_of cs x \<longleftrightarrow> x \<in> set cs"

definition none_of :: "jsstring \<Rightarrow> jschar \<Rightarrow> bool" where
  "none_of cs x \<longleftrightarrow> x \<notin> set cs"

section \<open>The response formatter: cleaning\<close>

text \<open>The patterns of \<open>cleanHtmlAndFormatText\<close>, in the order of the source.\<close>

definition re_output :: regex where
  \<comment> \<open>\<open>/"output"\s*:\s*"([^"]*)"/\<close>\<close>
  "re_output = [lit (QUOTE # js ''output'' @ [QUOTE]) @ [Rep isWhiteSpace 0] @ lit (js '':'') @
     [Rep isWhiteSpace 0] @ lit [QUOTE] @ [GOpen, Rep (not_char QUOTE) 0, GClose] @ lit [QUOTE]]"

definition re_esc_n :: regex where
  \<comment> \<open>\<open>/\\n/g\<close>: a backslash and the letter n\<close>
  "re_esc_n = [lit (BACKSLASH # js ''n'')]"

definition re_esc_quote :: regex where
  \<comment> \<open>\<open>/\\"/g\<close>: a backslash and a double quote\<close>
  "re_esc_quote = [lit [BACKSLASH, QUOTE]]"

definition re_br :: regex where
  \<comment> \<open>\<open>/<br\s*\/?>/gi\<close>\<close>
  "re_br = [lit_i (js ''<br'') @ [Rep isWhiteSpace 0, Opt (is_char 0x2F)] @ lit_i (js ''>'')]"

definition re_tag :: "string \<Rightarrow> regex" where
  \<comment> \<open>a literal tag under the \<open>gi\<close> flags, as \<open>/<p>/gi\<close>\<close>
  "re_tag t = [lit_i (js t)]"

definition re_tag2 :: "string \<Rightarrow> string \<Rightarrow> regex" where
  \<comment> \<open>two literal tags, as \<open>/<strong>|<b>/gi\<close>\<close>
  "re_tag2 t u = [lit_i (js t), lit_i (js u)]"

definition re_h_open :: regex where
  \<comment> \<open>\<open>/<h[1-6]>/gi\<close>\<close>
  "re_h_open = [lit_i (js ''<h'') @ [Chr (\<lambda>x. 0x31 \<le> x \<and> x \<le> 0x36)] @ lit_i (js ''>'')]"

definition re_h_close :: regex where
  \<comment> \<open>\<open>/<\/h[1-6]>/gi\<close>\<close>
  "re_h_close = [lit_i (js ''</h'') @ [Chr (\<lambda>x. 0x31 \<le> x \<and> x \<le> 0x36)] @ lit_i (js ''>'')]"

definition re_any_tag :: regex where
  \<comment> \<open>\<open>/<[^>]*>/g\<close>\<close>
  "re_any_tag = [lit (js ''<'') @ [Rep (not_char 0x3E) 0] @ lit (js ''>'')]"

definition re_delim :: "string \<Rightarrow> regex" where
  \<comment> \<open>\<open>/D(.*?)D/g\<close> for a delimiter D, as \<open>/\*\*(.*?)\*\*/g\<close> and \<open>/_(.*?)_/g\<close>\<close>
  "re_delim d = [lit (js d) @ [GOpen, RepLazy dot, GClose] @ lit (js d)]"

definition re_link :: regex where
  \<comment> \<open>\<open>/\[(.*?)\]\(.*?\)/g\<close>\<close>
  "re_link = [lit (js ''['') @ [GOpen, RepLazy dot, GClose] @ lit (js '']('') @ [RepLazy dot] @
     lit (js '')'')]"

definition re_newlines3 :: regex where
  \<comment> \<open>\<open>/\n{3,}/g\<close>\<close>
  "re_newlines3 = [[Rep (is_char NEWLINE) 3]]"

definition unescape :: "jsstring \<Rightarrow> jsstring" where
  \<comment> \<open>\<open>.replace(/\\n/g, '\n').replace(/\\"/g, '"')\<close> (lines 105 and 113 to 116)\<close>
  "unescape t = replace_all (replace_all t re_esc_n (Str [NEWLINE])) re_esc_quote (Str [QUOTE])"

definition strip_label :: "jsstring \<Rightarrow> jsstring" where
  \<comment> \<open>lines 96 to 98\<close>
  "strip_label text =
     (if startsWith text (js ''Response:'') then trim (drop (length (js ''Response:'')) text)
      else text)"

definition extract_output :: "jsstring \<Rightarrow> jsstring" where
  \<comment> \<open>lines 101 to 110; \<open>match[1]\<close> is falsy when the group is empty\<close>
  "extract_output text =
     (if startsWith (trim text) (js ''{'') \<and> includes_str text (QUOTE # js ''output'' @ [QUOTE])
      then (case rx_search re_output text of
              None \<Rightarrow> text
            | Some (st, rest) \<Rightarrow>
                (case snd st of
                   None \<Rightarrow> text
                 | Some g \<Rightarrow> if g \<noteq> [] then unescape g else text))
      else text)"

definition strip_html :: "jsstring \<Rightarrow> jsstring" where
  \<comment> \<open>lines 119 to 135\<close>
  "strip_html text =
     (let t1 = replace_all text re_br (Str [NEWLINE]);
          t2 = replace_all t1 (re_tag ''<p>'') (Str [NEWLINE]);
          t3 = replace_all t2 (re_tag ''</p>'') (Str [NEWLINE]);
          t4 = replace_all t3 (re_tag ''<li>'') (Str [NEWLINE, BULLET, 0x20]);
          t5 = replace_all t4 (re_tag ''</li>'') (Str []);
          t6 = replace_all t5 (re_tag ''<ul>'') (Str [NEWLINE]);
          t7 = replace_all t6 (re_tag ''</ul>'') (Str [NEWLINE]);
          t8 = replace_all t7 (re_tag ''<ol>'') (Str [NEWLINE]);
          t9 = replace_all t8 (re_tag ''</ol>'') (Str [NEWLINE]);
          t10 = replace_all t9 re_h_open (Str [NEWLINE, NEWLINE]);
          t11 = replace_all t10 re_h_close (Str [NEWLINE]);
          t12 = replace_all t11 (re_tag2 ''<strong>'' ''<b>'') (Str []);
          t13 = replace_all t12 (re_tag2 ''</strong>'' ''</b>'') (Str []);
          t14 = replace_all t13 (re_tag2 ''<em>'' ''<i>'') (Str []);
          t15 = replace_all t14 (re_tag2 ''</em>'' ''</i>'') (Str [])
      in replace_all t15 re_any_tag (Str []))"

definition strip_markdown :: "jsstring \<Rightarrow> jsstring" where
  \<comment> \<open>lines 138 to 144\<close>
  "strip_markdown text =
     (let t1 = replace_all text (re_delim ''**'') Group1;
          t2 = replace_all t1 (re_delim ''*'') Group1;
          t3 = replace_all t2 (re_delim ''__'') Group1;
          t4 = replace_all t3 (re_delim ''_'') Group1
      in replace_all t4 re_link Group1)"

definition cleanHtmlAndFormatText :: "jsstring \<Rightarrow> jsstring" where
  "cleanHtmlAndFormatText text =
     (let t1 = strip_label text;
          t2 = extract_output t1;
          t3 = unescape t2;
          t4 = strip_html t3;
          t5 = strip_markdown t4;
          t6 = replace_all t5 re_newlines3 (Str [NEWLINE, NEWLINE])
      in trim t6)"

section \<open>JSON\<close>

text \<open>
  \<open>JSON.parse\<close> and \<open>JSON.stringify\<close> are built into the language. They are modelled
  after the ECMAScript grammar: a lexer, and a parser that runs over the tokens with a
  stack of the arrays and objects still open. A number is kept as its lexeme: the double
  it denotes and the text \<open>Number::toString\<close> prints for it are floating point, and
  enter the model as the parameter \<open>num\<close> (the lexeme to the printed number).
\<close>

datatype js_error = SyntaxError | HttpError nat | NetworkError

datatype json =
    JNull
  | JBool bool
  | JNumber jsstring
  | JString jsstring
  | JArray "json list"
  | JObject "(jsstring \<times> json) list"

datatype token =
    TLBrace | TRBrace | TLBracket | TRBracket | TColon | TComma
  | TStr jsstring | TNum jsstring | TTrue | TFalse | TNull

definition json_ws :: "jschar \<Rightarrow> bool" where
  "json_ws c \<longleftrightarrow> c = 0x09 \<or> c = 0x0A \<or> c = 0x0D \<or> c = 0x20"

definition is_digit :: "jschar \<Rightarrow> bool" where
  "is_digit c \<longleftrightarrow> 0x30 \<le> c \<and> c \<le> 0x39"

definition hex_value :: "jschar \<Rightarrow> jschar option" where
  "hex_value c =
     (if 0x30 \<le> c \<and> c \<le> 0x39 then Some (c - 0x30)
      else if 0x41 \<le> c \<and> c \<le> 0x46 then Some (c - 0x41 + 10)
      else if 0x61 \<le> c \<and> c \<le> 0x66 then Some (c - 0x61 + 10)
      else None)"

definition simple_escape :: "jschar \<Rightarrow> jschar option" where
  \<comment> \<open>the character after a backslash: \<open>" \ / b f n r t\<close>\<close>
  "simple_escape c =
     (if c = 0x22 then Some 0x22 else if c = 0x5C then Some 0x5C
      else if c = 0x2F then Some 0x2F else if c = 0x62 then Some 0x08
      else if c = 0x66 then Some 0x0C else if c = 0x6E then Some 0x0A
      else if c = 0x72 then Some 0x0D else if c = 0x74 then Some 0x09
      else None)"

fun lex_string :: "jsstring \<Rightarrow> (jsstring \<times> jsstring) option" where
  \<comment> \<open>the input after an opening quote: the string's value and the input after the closing quote\<close>
  "lex_string [] = None"
| "lex_string (c # cs) =
     (if c = 0x22 then Some ([], cs)
      else if c = 0x5C then
        (case cs of
           [] \<Rightarrow> None
         | e # es \<Rightarrow>
             if e = 0x75 then
               (case es of
                  h1 # h2 # h3 # h4 # r \<Rightarrow>
                    (case (hex_value h1, hex_value h2, hex_value h3, hex_value h4) of
                       (Some a, Some b, Some c', Some d) \<Rightarrow>
                         map_option (\<lambda>(v, rest). ((a * 4096 + b * 256 + c' * 16 + d) # v, rest))
                           (lex_string r)
                     | _ \<Rightarrow> None)
                | _ \<Rightarrow> None)
             else
               (case simple_escape e of
                  None \<Rightarrow> None
                | Some x \<Rightarrow> map_option (\<lambda>(v, rest). (x # v, rest)) (lex_string es)))
      else if c < 0x20 then None
      else map_option (\<lambda>(v, rest). (c # v, rest)) (lex_string cs))"

definition num_char :: "jschar \<Rightarrow> bool" where
  \<comment> \<open>the characters a number is made of: digits, sign, point, exponent mark\<close>
  "num_char c \<longleftrightarrow> is_digit c \<or> c = 0x2B \<or> c = 0x2D \<or> c = 0x2E \<or> c = 0x45 \<or> c = 0x65"

definition valid_exp :: "jsstring \<Rightarrow> bool" where
  "valid_exp r =
     (case r of
        [] \<Rightarrow> True
      | c # r' \<Rightarrow> (c = 0x45 \<or> c = 0x65) \<and>
          (let ds = (case r' of [] \<Rightarrow> [] | s # t \<Rightarrow> if s = 0x2B \<or> s = 0x2D then t else r')
           in ds \<noteq> [] \<and> list_all is_digit ds))"

definition valid_frac :: "jsstring \<Rightarrow> bool" where
  "valid_frac r =
     (case r of
        [] \<Rightarrow> True
      | c # r' \<Rightarrow> if c = 0x2E then takeWhile is_digit r' \<noteq> [] \<and> valid_exp (dropWhile is_digit r')
                 else valid_exp r)"

definition valid_number :: "jsstring \<Rightarrow> bool" where
  \<comment> \<open>\<open>-?(0|[1-9][0-9]*)(\.[0-9]+)?([eE][+-]?[0-9]+)?\<close>\<close>
  "valid_number l =
     (case (case l of [] \<Rightarrow> [] | c # r \<Rightarrow> if c = 0x2D then r else l) of
        [] \<Rightarrow> False
      | d # r \<Rightarrow> if d = 0x30 then valid_frac r
                 else if is_digit d then valid_frac (dropWhile is_digit r)
                 else False)"

lemma lex_string_shorter: "lex_string cs = Some (v, rest) \<Longrightarrow> length rest < length cs"
proof (induction cs arbitrary: v rest rule: lex_string.induct)
  case 1
  then show ?case by simp
next
  case (2 c cs)
  show ?case
  proof (cases "c = 0x22")
    case True
    with "2.prems" show ?thesis by auto
  next
    case notq: False
    show ?thesis
    proof (cases "c = 0x5C")
      case False
      with notq "2.prems" "2.IH"(3) show ?thesis
        by (fastforce split: if_splits)
    next
      case True
      then obtain e es where cs: "cs = e # es"
        using "2.prems" by (cases cs) auto
      show ?thesis
      proof (cases "e = 0x75")
        case False
        with True notq cs "2.prems" "2.IH"(2)[of e es] show ?thesis
          by (fastforce split: option.splits)
      next
        case u: True
        then obtain h1 h2 h3 h4 r where es: "es = h1 # h2 # h3 # h4 # r"
          using "2.prems" True cs by (auto split: list.splits)
        with True notq cs u "2.prems" "2.IH"(1)[of e es h1 _ h2 _ h3 _ h4 r] show ?thesis
          by (fastforce split: option.splits)
      qed
    qed
  qed
qed

function lex :: "jsstring \<Rightarrow> token list option" where
  "lex [] = Some []"
| "lex (c # cs) =
     (if json_ws c then lex cs
      else if c = 0x7B then map_option (Cons TLBrace) (lex cs)
      else if c = 0x7D then map_option (Cons TRBrace) (lex cs)
      else if c = 0x5B then map_option (Cons TLBracket) (lex cs)
      else if c = 0x5D then map_option (Cons TRBracket) (lex cs)
      else if c = 0x3A then map_option (Cons TColon) (lex cs)
      else if c = 0x2C then map_option (Cons TComma) (lex cs)
      else if c = 0x22 then
        (case lex_string cs of
           None \<Rightarrow> None
         | Some (v, rest) \<Rightarrow> map_option (Cons (TStr v)) (lex rest))
      else if c = 0x2D \<or> is_digit c then
        (if valid_number (c # takeWhile num_char cs)
         then map_option (Cons (TNum (c # takeWhile num_char cs))) (lex (dropWhile num_char cs))
         else None)
      else if startsWith (c # cs) (js ''true'') then map_option (Cons TTrue) (lex (drop 3 cs))
      else if startsWith (c # cs) (js ''false'') then map_option (Cons TFalse) (lex (drop 4 cs))
      else if startsWith (c # cs) (js ''null'') then map_option (Cons TNull) (lex (drop 3 cs))
      else None)"
  by pat_completeness auto
termination
proof (relation "measure length", goal_cases)
  case (9 c cs x2 x y)
  then show ?case using lex_string_shorter[of cs x y] by simp
next
  case (10 c cs)
  then show ?case by (simp add: less_Suc_eq_le length_dropWhile_le)
qed simp_all

declare lex_string.simps [simp del]

text \<open>
  The own properties of a parsed object, in the order \<open>for ... in\<close> and
  \<open>JSON.stringify\<close> enumerate them: a key met again replaces the value and keeps its place;
  array indices come first, in increasing order, then the other keys as created.
\<close>

fun put :: "jsstring \<Rightarrow> json \<Rightarrow> (jsstring \<times> json) list \<Rightarrow> (jsstring \<times> json) list" where
  "put k v [] = [(k, v)]"
| "put k v ((k', v') # ps) = (if k' = k then (k, v) # ps else (k', v') # put k v ps)"

definition decimal :: "jsstring \<Rightarrow> int" where
  "decimal ds = foldl (\<lambda>n d. 10 * n + uint (d - 0x30)) 0 ds"

definition array_index :: "jsstring \<Rightarrow> int option" where
  \<comment> \<open>a canonical numeric string below \<open>2^32 - 1\<close>\<close>
  "array_index k =
     (case k of
        [] \<Rightarrow> None
      | d # ds \<Rightarrow>
          if list_all is_digit k \<and> (d = 0x30 \<longrightarrow> ds = []) \<and> decimal k < 4294967295
          then Some (decimal k) else None)"

definition object_of :: "(jsstring \<times> json) list \<Rightarrow> (jsstring \<times> json) list" where
  "object_of pairs =
     (let ps = foldl (\<lambda>acc (k, v). put k v acc) [] pairs;
          idx = concat (map (\<lambda>(k, v). case array_index k of None \<Rightarrow> [] | Some i \<Rightarrow> [(i, (k, v))]) ps)
      in map snd (sort_key fst idx) @ filter (\<lambda>(k, v). array_index k = None) ps)"

datatype frame = FArr "json list" | FObj "(jsstring \<times> json) list" "jsstring option"

datatype expect =
    EValue | EValueOrClose | EKeyOrClose | EKey | EColon | ECommaOrClose | EDone json

type_synonym pstate = "expect \<times> frame list"

fun complete :: "json \<Rightarrow> frame list \<Rightarrow> pstate option" where
  \<comment> \<open>a value is finished: it is the result, an element of the open array, or the value of
     the pending key of the open object\<close>
  "complete v [] = Some (EDone v, [])"
| "complete v (FArr vs # st) = Some (ECommaOrClose, FArr (v # vs) # st)"
| "complete v (FObj ps (Some k) # st) = Some (ECommaOrClose, FObj ((k, v) # ps) None # st)"
| "complete v (FObj ps None # st) = None"

fun value_token :: "token \<Rightarrow> frame list \<Rightarrow> pstate option" where
  "value_token TLBrace st = Some (EKeyOrClose, FObj [] None # st)"
| "value_token TLBracket st = Some (EValueOrClose, FArr [] # st)"
| "value_token (TStr s) st = complete (JString s) st"
| "value_token (TNum n) st = complete (JNumber n) st"
| "value_token TTrue st = complete (JBool True) st"
| "value_token TFalse st = complete (JBool False) st"
| "value_token TNull st = complete JNull st"
| "value_token _ st = None"

fun close_array :: "frame list \<Rightarrow> pstate option" where
  "close_array (FArr vs # st) = complete (JArray (rev vs)) st"
| "close_array _ = None"

fun close_object :: "frame list \<Rightarrow> pstate option" where
  "close_object (FObj ps None # st) = complete (JObject (object_of (rev ps))) st"
| "close_object _ = None"

fun key_token :: "token \<Rightarrow> frame list \<Rightarrow> pstate option" where
  "key_token (TStr k) (FObj ps None # st) = Some (EColon, FObj ps (Some k) # st)"
| "key_token _ _ = None"

fun pstep :: "pstate \<Rightarrow> token \<Rightarrow> pstate option" where
  "pstep (EValue, st) t = value_token t st"
| "pstep (EValueOrClose, st) t = (if t = TRBracket then close_array st else value_token t st)"
| "pstep (EKeyOrClose, st) t = (if t = TRBrace then close_object st else key_token t st)"
| "pstep (EKey, st) t = key_token t st"
| "pstep (EColon, st) t = (if t = TColon then Some (EValue, st) else None)"
| "pstep (ECommaOrClose, st) t =
     (if t = TComma then
        (case st of
           FArr vs # _ \<Rightarrow> Some (EValue, st)
         | FObj ps None # _ \<Rightarrow> Some (EKey, st)
         | _ \<Rightarrow> None)
      else if t = TRBracket then close_array st
      else if t = TRBrace then close_object st
      else None)"
| "pstep (EDone v, st) t = None"

fun parse_tokens :: "pstate \<Rightarrow> token list \<Rightarrow> pstate option" where
  "parse_tokens p [] = Some p"
| "parse_tokens p (t # ts) = (case pstep p t of None \<Rightarrow> None | Some p' \<Rightarrow> parse_tokens p' ts)"

definition JSON_parse :: "jsstring \<Rightarrow> js_error + json" where
  "JSON_parse text =
     (case lex text of
        None \<Rightarrow> Inl SyntaxError
      | Some ts \<Rightarrow>
          (case parse_tokens (EValue, []) ts of
             Some (EDone v, st) \<Rightarrow> Inr v
           | _ \<Rightarrow> Inl SyntaxError))"

subsection \<open>\<open>JSON.stringify\<close>\<close>

definition hex_digit :: "nat \<Rightarrow> jschar" where
  "hex_digit n = (if n < 10 then 0x30 + of_nat n else 0x61 + of_nat (n - 10))"

definition unicode_escape :: "jschar \<Rightarrow> jsstring" where
  \<comment> \<open>\<open>\uXXXX\<close> with lower-case digits\<close>
  "unicode_escape c =
     [0x5C, 0x75, hex_digit (unat c div 4096), hex_digit (unat c div 256 mod 16),
      hex_digit (unat c div 16 mod 16), hex_digit (unat c mod 16)]"

definition high_surrogate :: "jschar \<Rightarrow> bool" where
  "high_surrogate c \<longleftrightarrow> 0xD800 \<le> c \<and> c \<le> 0xDBFF"

definition low_surrogate :: "jschar \<Rightarrow> bool" where
  "low_surrogate c \<longleftrightarrow> 0xDC00 \<le> c \<and> c \<le> 0xDFFF"

definition quote_unit :: "jschar \<Rightarrow> jsstring" where
  "quote_unit c =
     (if c = 0x08 then BACKSLASH # js ''b'' else if c = 0x09 then BACKSLASH # js ''t''
      else if c = 0x0A then BACKSLASH # js ''n'' else if c = 0x0C then BACKSLASH # js ''f''
      else if c = 0x0D then BACKSLASH # js ''r'' else if c = 0x22 then [0x5C, 0x22]
      else if c = 0x5C then [0x5C, 0x5C]
      else if c < 0x20 \<or> high_surrogate c \<or> low_surrogate c then unicode_escape c
      else [c])"

fun quote_body :: "jsstring \<Rightarrow> jsstring" where
  \<comment> \<open>a surrogate pair is copied, a lone surrogate is escaped\<close>
  "quote_body [] = []"
| "quote_body [c] = quote_unit c"
| "quote_body (c # d # cs) =
     (if high_surrogate c \<and> low_surrogate d then c # d # quote_body cs
      else quote_unit c @ quote_body (d # cs))"

definition quote :: "jsstring \<Rightarrow> jsstring" where
  "quote s = [0x22] @ quote_body s @ [0x22]"

fun join :: "jsstring \<Rightarrow> jsstring list \<Rightarrow> jsstring" where
  "join sep [] = []"
| "join sep [x] = x"
| "join sep (x # y # ys) = x @ sep @ join sep (y # ys)"

definition number_text :: "(jsstring \<Rightarrow> jsstring) \<Rightarrow> jsstring \<Rightarrow> jsstring" where
  \<comment> \<open>a number that is not finite is printed as \<open>null\<close>\<close>
  "number_text num l =
     (if num l = js ''Infinity'' \<or> num l = js ''-Infinity'' \<or> num l = js ''NaN'' then js ''null''
      else num l)"

fun JSON_stringify :: "(jsstring \<Rightarrow> jsstring) \<Rightarrow> json \<Rightarrow> jsstring" where
  "JSON_stringify num JNull = js ''null''"
| "JSON_stringify num (JBool b) = (if b then js ''true'' else js ''false'')"
| "JSON_stringify num (JNumber l) = number_text num l"
| "JSON_stringify num (JString s) = quote s"
| "JSON_stringify num (JArray vs) = js ''['' @ join (js '','') (map (JSON_stringify num) vs) @ js '']''"
| "JSON_stringify num (JObject ps) =
     js ''{'' @ join (js '','') (map (\<lambda>(k, v). quote k @ js '':'' @ JSON_stringify num v) ps) @ js ''}''"

section \<open>The response formatter: extraction\<close>

definition truthy :: "(jsstring \<Rightarrow> jsstring) \<Rightarrow> json \<Rightarrow> bool" where
  \<comment> \<open>what \<open>data && ...\<close> tests; a number is falsy when it is zero (printed \<open>0\<close>) or NaN\<close>
  "truthy num d =
     (case d of
        JNull \<Rightarrow> False
      | JBool b \<Rightarrow> b
      | JNumber l \<Rightarrow> num l \<noteq> js ''0'' \<and> num l \<noteq> js ''NaN''
      | JString s \<Rightarrow> s \<noteq> []
      | JArray vs \<Rightarrow> True
      | JObject ps \<Rightarrow> True)"

definition get_prop :: "json \<Rightarrow> jsstring \<Rightarrow> json option" where
  \<comment> \<open>\<open>d[k]\<close> for a key that no prototype defines (the formatter reads the candidate
     names below and the keys \<open>for ... in\<close> gives it); \<open>None\<close> is \<open>undefined\<close>. Reading a
     property of \<open>null\<close> throws: the source guards every read by \<open>data &&\<close>, and so does
     the model, by \<open>truthy\<close>.\<close>
  "get_prop d k =
     (case d of
        JObject ps \<Rightarrow> map_of ps k
      | JArray vs \<Rightarrow> (case array_index k of
                       Some i \<Rightarrow> if i < int (length vs) then Some (vs ! nat i) else None
                     | None \<Rightarrow> None)
      | _ \<Rightarrow> None)"

definition string_prop :: "(jsstring \<Rightarrow> jsstring) \<Rightarrow> json \<Rightarrow> jsstring \<Rightarrow> jsstring option" where
  \<comment> \<open>\<open>d && typeof d.k === 'string'\<close>, with the string\<close>
  "string_prop num d k =
     (if truthy num d then (case get_prop d k of Some (JString s) \<Rightarrow> Some s | _ \<Rightarrow> None)
      else None)"

fun first_string_prop :: "(jsstring \<Rightarrow> jsstring) \<Rightarrow> json \<Rightarrow> jsstring list \<Rightarrow> jsstring option" where
  \<comment> \<open>an \<open>else if\<close> chain over field names: the first name whose field is a string\<close>
  "first_string_prop num d [] = None"
| "first_string_prop num d (k # ks) =
     (case string_prop num d k of Some s \<Rightarrow> Some s | None \<Rightarrow> first_string_prop num d ks)"

definition top_fields :: "jsstring list" where
  \<comment> \<open>lines 47 to 62\<close>
  "top_fields = [js ''output'', js ''response'', js ''message'', js ''text'', js ''content'',
     js ''result'', js ''answer'', js ''data'']"

definition nested_fields :: "jsstring list" where
  \<comment> \<open>lines 63 to 68, under \<open>data.data\<close>\<close>
  "nested_fields = [js ''response'', js ''message'', js ''text'']"

definition nested_string_prop :: "(jsstring \<Rightarrow> jsstring) \<Rightarrow> json \<Rightarrow> jsstring option" where
  \<comment> \<open>\<open>data && data.data && typeof data.data.k === 'string'\<close> for the nested names in turn\<close>
  "nested_string_prop num d =
     (if truthy num d then
        (case get_prop d (js ''data'') of
           None \<Rightarrow> None
         | Some dd \<Rightarrow> first_string_prop num dd nested_fields)
      else None)"

definition enumerable_values :: "json \<Rightarrow> json list" where
  \<comment> \<open>\<open>data[key]\<close> for the keys of \<open>for (const key in data)\<close>, in order\<close>
  "enumerable_values d =
     (case d of JObject ps \<Rightarrow> map snd ps | JArray vs \<Rightarrow> vs | _ \<Rightarrow> [])"

fun first_long_string :: "json list \<Rightarrow> jsstring option" where
  \<comment> \<open>lines 73 to 77\<close>
  "first_long_string [] = None"
| "first_long_string (v # vs) =
     (case v of
        JString s \<Rightarrow> if length s > 20 then Some s else first_long_string vs
      | _ \<Rightarrow> first_long_string vs)"

definition is_object :: "json \<Rightarrow> bool" where
  \<comment> \<open>\<open>data && typeof data === 'object'\<close>\<close>
  "is_object d = (case d of JObject ps \<Rightarrow> True | JArray vs \<Rightarrow> True | _ \<Rightarrow> False)"

definition pick_response :: "(jsstring \<Rightarrow> jsstring) \<Rightarrow> json \<Rightarrow> jsstring option" where
  \<comment> \<open>the chain of lines 45 to 81: what it returns, \<open>None\<close> when no branch is taken\<close>
  "pick_response num d =
     (case d of
        JString s \<Rightarrow> Some (cleanHtmlAndFormatText s)
      | _ \<Rightarrow>
        (case first_string_prop num d top_fields of
           Some s \<Rightarrow> Some (cleanHtmlAndFormatText s)
         | None \<Rightarrow>
           (case nested_string_prop num d of
              Some s \<Rightarrow> Some (cleanHtmlAndFormatText s)
            | None \<Rightarrow>
              (case d of
                 JArray (JString s # vs) \<Rightarrow> Some (cleanHtmlAndFormatText s)
               | _ \<Rightarrow>
                 if is_object d then
                   (case first_long_string (enumerable_values d) of
                      Some s \<Rightarrow> Some (cleanHtmlAndFormatText s)
                    | None \<Rightarrow>
                        Some (js ''Response: '' @ cleanHtmlAndFormatText (JSON_stringify num d)))
                 else None))))"

definition looks_like_json :: "jsstring \<Rightarrow> bool" where
  \<comment> \<open>line 40\<close>
  "looks_like_json text \<longleftrightarrow> startsWith (trim text) (js ''{'') \<or> startsWith (trim text) (js ''['')"

definition try_block :: "(jsstring \<Rightarrow> jsstring) \<Rightarrow> jsstring \<Rightarrow> js_error + jsstring option" where
  \<comment> \<open>the body of \<open>try\<close>, lines 42 to 81: \<open>JSON.parse\<close> may throw\<close>
  "try_block num text =
     (case JSON_parse text of
        Inl e \<Rightarrow> Inl e
      | Inr d \<Rightarrow> Inr (pick_response num d))"

definition formatResponseText :: "(jsstring \<Rightarrow> jsstring) \<Rightarrow> jsstring \<Rightarrow> js_error + jsstring" where
  "formatResponseText num text =
     (if looks_like_json text then
        (case try_block num text of
           Inl e \<Rightarrow> Inr (cleanHtmlAndFormatText text)
         | Inr (Some r) \<Rightarrow> Inr r
         | Inr None \<Rightarrow> Inr (cleanHtmlAndFormatText text))
      else Inr (cleanHtmlAndFormatText text))"

definition EMPTY_RESPONSE :: jsstring where
  "EMPTY_RESPONSE = js ''Sorry, I received an empty response. Please try again.''"

definition format :: "(jsstring \<Rightarrow> jsstring) \<Rightarrow> jsstring \<Rightarrow> js_error + jsstring" where
  \<comment> \<open>lines 23 to 30 of \<open>sendMessageToWebhook\<close>: the response body to the reply\<close>
  "format num textData =
     (if textData = [] \<or> trim textData = [] then Inr EMPTY_RESPONSE
      else formatResponseText num textData)"

record http_response =
  ok :: bool
  status :: nat
  body :: jsstring

datatype fetched = Failed | Response http_response

definition sendMessageToWebhook :: "(jsstring \<Rightarrow> jsstring) \<Rightarrow> fetched \<Rightarrow> js_error + jsstring" where
  \<comment> \<open>the function after \<open>fetch\<close> has settled; what it throws is \<open>Inl\<close>\<close>
  "sendMessageToWebhook num f =
     (case f of
        Failed \<Rightarrow> Inl NetworkError
      | Response r \<Rightarrow> if \<not> ok r then Inl (HttpError (status r)) else format num (body r))"

section \<open>The playback controller: text\<close>

definition AUDIBLE_PREFIX :: jsstring where
  "AUDIBLE_PREFIX = js ''Lecture en cours : ''"

definition processTextForSpeech :: "jsstring \<Rightarrow> jsstring" where
  "processTextForSpeech text =
     (let t1 = replace_all text [[Rep (is_char 0x23) 1]] (Str (js '' ''));
          t2 = replace_all t1 [lit (js ''--'') @ [Rep (is_char 0x2D) 1]] (Str (js '' ''));
          t3 = replace_all t2 [lit (js ''***'')] (Str (js '' ''));
          t4 = replace_all t3 [lit (js ''...'')] (Str (js ''.''));
          t5 = replace_all t4 [lit (js ''<'') @ [Rep (not_char 0x3E) 1] @ lit (js ''>'')] (Str (js '' ''));
          t6 = replace_all t5 [[Chr (one_of (js ''*_~`''))]] (Str (js '' ''));
          t7 = replace_all t6 [[Rep isWhiteSpace 1]] (Str (js '' ''))
      in trim t7)"

definition re_sentence :: regex where
  \<comment> \<open>\<open>/[^.!?]+[.!?]?\s*/g\<close>\<close>
  "re_sentence = [[Rep (none_of (js ''.!?'')) 1, Opt (one_of (js ''.!?'')), Rep isWhiteSpace 0]]"

definition splitIntoSentences :: "jsstring \<Rightarrow> jsstring list" where
  "splitIntoSentences text =
     (let sentences = match_all text re_sentence
      in if sentences \<noteq> [] then filter (\<lambda>s. length s > 0) (map trim sentences) else [text])"

section \<open>The playback controller: state\<close>

text \<open>
  The hook keeps its state in refs and one React state variable. The browser runs one
  callback at a time: a call of \<open>speak\<close> or \<open>cancel\<close>, a timer, or an event of the
  speech device for an utterance it was given. The device is outside the repository; the
  model keeps what the controller can observe of it: the utterances handed over and not
  yet finished (\<open>device_queue\<close>, the head is the one being spoken), those that
  \<open>cancel()\<close> dropped and whose \<open>end\<close> or \<open>error\<close> event may still arrive
  (\<open>device_dropped\<close>), and the record of every utterance handed over, with the time
  (\<open>handed\<close>).
\<close>

record voice =
  voice_name :: jsstring
  voice_lang :: jsstring

record utterance =
  utext :: jsstring
  uvoice :: "voice option"
  ulang :: jsstring
  rate :: rat
  pitch :: rat
  volume :: rat

datatype timer =
    Settle jsstring  \<comment> \<open>the callback of \<open>speak\<close>, after 100 ms\<close>
  | NextChunk        \<comment> \<open>\<open>setTimeout(speakNextChunk, 50)\<close> of \<open>onend\<close>\<close>
  | CancelReset      \<comment> \<open>the callback of \<open>cancel\<close>, after 50 ms\<close>

record controller =
  now :: nat
  isSpeaking :: bool
  synthesis :: bool  \<comment> \<open>\<open>synthesisRef.current\<close> is set\<close>
  isInitialized :: bool
  voicesLoaded :: bool
  selectedVoice :: "voice option"
  utteranceQueue :: "utterance list"
  currentUtteranceIndex :: nat
  isCancelling :: bool
  timers :: "(nat \<times> timer) list"
  device_queue :: "utterance list"
  device_dropped :: "utterance list"
  handed :: "(nat \<times> jsstring) list"

definition device_cancel :: "controller \<Rightarrow> controller" where
  \<comment> \<open>\<open>synthesisRef.current.cancel()\<close>\<close>
  "device_cancel s = s\<lparr>device_dropped := device_dropped s @ device_queue s, device_queue := []\<rparr>"

definition device_speak :: "utterance \<Rightarrow> controller \<Rightarrow> controller" where
  \<comment> \<open>\<open>synthesisRef.current.speak(utterance)\<close>\<close>
  "device_speak u s = s\<lparr>device_queue := device_queue s @ [u], handed := handed s @ [(now s, utext u)]\<rparr>"

definition set_timeout :: "timer \<Rightarrow> nat \<Rightarrow> controller \<Rightarrow> controller" where
  "set_timeout cb delay s = s\<lparr>timers := timers s @ [(now s + delay, cb)]\<rparr>"

definition speakNextChunk :: "controller \<Rightarrow> controller" where
  \<comment> \<open>the first chunk gets the prefix: the utterance in the queue is the object handed over\<close>
  "speakNextChunk s =
     (if isCancelling s then s\<lparr>isSpeaking := False\<rparr>
      else if \<not> synthesis s \<or> currentUtteranceIndex s \<ge> length (utteranceQueue s)
      then s\<lparr>isSpeaking := False, utteranceQueue := [], currentUtteranceIndex := 0\<rparr>
      else
        (let i = currentUtteranceIndex s;
             u = utteranceQueue s ! i;
             u' = (if i = 0 then u\<lparr>utext := AUDIBLE_PREFIX @ utext u\<rparr> else u)
         in device_speak u' (s\<lparr>utteranceQueue := (utteranceQueue s)[i := u']\<rparr>)))"

definition onend :: "controller \<Rightarrow> controller" where
  "onend s =
     (if isCancelling s then s\<lparr>isSpeaking := False\<rparr>
      else set_timeout NextChunk 50 (s\<lparr>currentUtteranceIndex := currentUtteranceIndex s + 1\<rparr>))"

definition onerror :: "controller \<Rightarrow> controller" where
  "onerror s =
     (if isCancelling s then s\<lparr>isSpeaking := False\<rparr>
      else s\<lparr>isSpeaking := False, utteranceQueue := [], currentUtteranceIndex := 0\<rparr>)"

definition onstart :: "controller \<Rightarrow> controller" where
  "onstart s = s\<lparr>isSpeaking := True\<rparr>"

definition ready :: "controller \<Rightarrow> bool" where
  \<comment> \<open>line 218, negated\<close>
  "ready s \<longleftrightarrow> synthesis s \<and> isInitialized s \<and> voicesLoaded s \<and> selectedVoice s \<noteq> None"

definition speak :: "jsstring \<Rightarrow> controller \<Rightarrow> controller" where
  "speak text s =
     (if text = [] \<or> length (trim text) = 0 then s
      else if \<not> ready s then s
      else set_timeout (Settle text) 100 (device_cancel (s\<lparr>isCancelling := True\<rparr>)))"

definition new_utterance :: "controller \<Rightarrow> jsstring \<Rightarrow> utterance" where
  \<comment> \<open>lines 241 to 247\<close>
  "new_utterance s chunk =
     \<lparr>utext = chunk, uvoice = selectedVoice s,
      ulang = (case selectedVoice s of
                 None \<Rightarrow> js ''fr-FR''
               | Some v \<Rightarrow> if voice_lang v \<noteq> [] then voice_lang v else js ''fr-FR''),
      rate = 1, pitch = 105 / 100, volume = 1\<rparr>"

definition speak_timeout :: "jsstring \<Rightarrow> controller \<Rightarrow> controller" where
  \<comment> \<open>the callback of lines 227 to 254\<close>
  "speak_timeout text s0 =
     (let s = s0\<lparr>isCancelling := False\<rparr>;
          processedText = processTextForSpeech text;
          chunks = splitIntoSentences processedText
      in if length chunks = 0 then s
         else speakNextChunk (s\<lparr>utteranceQueue := map (new_utterance s) chunks,
                                  currentUtteranceIndex := 0, isSpeaking := True\<rparr>))"

definition cancel :: "controller \<Rightarrow> controller" where
  "cancel s =
     (if \<not> synthesis s \<or> \<not> isSpeaking s then s
      else set_timeout CancelReset 50
             ((device_cancel (s\<lparr>isCancelling := True, utteranceQueue := [],
                                 currentUtteranceIndex := 0\<rparr>))\<lparr>isSpeaking := False\<rparr>))"

definition cancel_timeout :: "controller \<Rightarrow> controller" where
  "cancel_timeout s = s\<lparr>isCancelling := False\<rparr>"

fun run_timer :: "timer \<Rightarrow> controller \<Rightarrow> controller" where
  "run_timer (Settle text) s = speak_timeout text s"
| "run_timer NextChunk s = speakNextChunk s"
| "run_timer CancelReset s = cancel_timeout s"

text \<open>
  Timers fire in the order of their due times, and in the order they were set when the
  due times are equal; a timer may fire late, never early.
\<close>

fun earliest :: "(nat \<times> timer) list \<Rightarrow> (nat \<times> timer) option" where
  "earliest [] = None"
| "earliest (t # ts) =
     (case earliest ts of
        None \<Rightarrow> Some t
      | Some t' \<Rightarrow> if fst t \<le> fst t' then Some t else Some t')"

datatype event =
    CallSpeak jsstring
  | CallCancel
  | Elapse nat
  | TimerFires
  | DeviceStart
  | DeviceEnd
  | DeviceError
  | LateEnd
  | LateError

fun step :: "event \<Rightarrow> controller \<Rightarrow> controller option" where
  "step (CallSpeak text) s = Some (speak text s)"
| "step CallCancel s = Some (cancel s)"
| "step (Elapse d) s = Some (s\<lparr>now := now s + d\<rparr>)"
| "step TimerFires s =
     (case earliest (timers s) of
        None \<Rightarrow> None
      | Some (due, cb) \<Rightarrow>
          if due \<le> now s then Some (run_timer cb (s\<lparr>timers := remove1 (due, cb) (timers s)\<rparr>))
          else None)"
| "step DeviceStart s = (case device_queue s of [] \<Rightarrow> None | u # us \<Rightarrow> Some (onstart s))"
| "step DeviceEnd s =
     (case device_queue s of [] \<Rightarrow> None | u # us \<Rightarrow> Some (onend (s\<lparr>device_queue := us\<rparr>)))"
| "step DeviceError s =
     (case device_queue s of [] \<Rightarrow> None | u # us \<Rightarrow> Some (onerror (s\<lparr>device_queue := us\<rparr>)))"
| "step LateEnd s =
     (case device_dropped s of [] \<Rightarrow> None | u # us \<Rightarrow> Some (onend (s\<lparr>device_dropped := us\<rparr>)))"
| "step LateError s =
     (case device_dropped s of [] \<Rightarrow> None | u # us \<Rightarrow> Some (onerror (s\<lparr>device_dropped := us\<rparr>)))"

fun run :: "event list \<Rightarrow> controller \<Rightarrow> controller option" where
  "run [] s = Some s"
| "run (e # es) s = (case step e s of None \<Rightarrow> None | Some s' \<Rightarrow> run es s')"

definition idle :: "voice \<Rightarrow> controller" where
  \<comment> \<open>the hook after initialisation, with a voice selected, and nothing said yet\<close>
  "idle v = \<lparr>now = 0, isSpeaking = False, synthesis = True, isInitialized = True,
     voicesLoaded = True, selectedVoice = Some v, utteranceQueue = [],
     currentUtteranceIndex = 0, isCancelling = False, timers = [], device_queue = [],
     device_dropped = [], handed = []\<rparr>"

section \<open>Auxiliary notions\<close>

definition dq :: "string \<Rightarrow> jsstring" where
  \<comment> \<open>an ASCII literal between double quotes\<close>
  "dq s = QUOTE # js s @ [QUOTE]"

text \<open>For the parser: the outermost open container is an array; a value is an array.\<close>

definition bottom_is_array :: "frame list \<Rightarrow> bool" where
  "bottom_is_array st \<longleftrightarrow> st \<noteq> [] \<and> (case last st of FArr vs \<Rightarrow> True | FObj ps k \<Rightarrow> False)"

definition is_array :: "json \<Rightarrow> bool" where
  "is_array v = (case v of JArray vs \<Rightarrow> True | _ \<Rightarrow> False)"

definition terminal :: "jschar \<Rightarrow> bool" where
  "terminal c \<longleftrightarrow> c = 0x2E \<or> c = 0x21 \<or> c = 0x3F"

fun sentence_rest :: "jsstring \<Rightarrow> jsstring" where
  "sentence_rest [] = []"
| "sentence_rest (p # r) = dropWhile isWhiteSpace r"

fun sentence_tail :: "jsstring \<Rightarrow> jsstring" where
  "sentence_tail [] = []"
| "sentence_tail (p # r) = p # takeWhile isWhiteSpace r"

definition sentence_match :: "jschar \<Rightarrow> jsstring \<Rightarrow> jsstring" where
  "sentence_match c cs = c # takeWhile (\<lambda>c. \<not> terminal c) cs @ sentence_tail (dropWhile (\<lambda>c. \<not> terminal c) cs)"

definition sentence_shape :: "jsstring \<Rightarrow> bool" where
  "sentence_shape m \<longleftrightarrow>
     (\<exists>a t. m = a @ t \<and> a \<noteq> [] \<and> (\<forall>x \<in> set a. \<not> terminal x) \<and>
        (t = [] \<or> (\<exists>p w. t = p # w \<and> terminal p \<and> (\<forall>x \<in> set w. isWhiteSpace x))))"

definition demo_voice :: voice where
  "demo_voice = \<lparr>voice_name = js ''Google'', voice_lang = js ''fr-FR''\<rparr>"

definition speaking_two :: controller where
  \<comment> \<open>a session of two chunks, the first handed to the device\<close>
  "speaking_two = (idle demo_voice)
     \<lparr>isSpeaking := True,
      utteranceQueue := [new_utterance (idle demo_voice) (AUDIBLE_PREFIX @ js ''One.''),
                         new_utterance (idle demo_voice) (js ''Two.'')],
      device_queue := [new_utterance (idle demo_voice) (AUDIBLE_PREFIX @ js ''One.'')]\<rparr>"

lemma segments_termination:
  "dropWhile P cs = p # r \<Longrightarrow> length (dropWhile Q r) < Suc (length cs)"
proof -
  assume d: "dropWhile P cs = p # r"
  have "length (dropWhile Q r) \<le> length r" by (rule length_dropWhile_le)
  also have "\<dots> < length (dropWhile P cs)" unfolding d by simp
  also have "\<dots> \<le> length cs" by (rule length_dropWhile_le)
  finally show ?thesis by simp
qed

text \<open>
  The segments of a text, as the specification words them: a segment starts at the first
  character that is not terminal punctuation, runs to the next terminal mark, keeps that
  one mark, and takes the white space after it; a terminal mark met where a segment would
  start belongs to no segment; what follows the last mark is the last segment.
\<close>

function segments :: "jsstring \<Rightarrow> jsstring list" where
  "segments [] = []"
| "segments (c # cs) =
     (if terminal c then segments cs
      else (case dropWhile (\<lambda>x. \<not> terminal x) cs of
              [] \<Rightarrow> [c # cs]
            | p # r \<Rightarrow> (c # takeWhile (\<lambda>x. \<not> terminal x) cs @ p # takeWhile isWhiteSpace r)
                       # segments (dropWhile isWhiteSpace r)))"
  by pat_completeness auto
termination
  by (relation "measure length") (simp_all add: segments_termination)

definition plain_sentence :: "jsstring \<Rightarrow> bool" where
  "plain_sentence a \<longleftrightarrow> a \<noteq> [] \<and> trim a = a \<and> list_all (\<lambda>x. \<not> terminal x) a"

fun no_match :: "regex \<Rightarrow> jsstring \<Rightarrow> bool" where
  \<comment> \<open>the pattern matches at no position of the text\<close>
  "no_match re [] \<longleftrightarrow> rx_exec re [] = None"
| "no_match re (c # cs) \<longleftrightarrow> rx_exec re (c # cs) = None \<and> no_match re cs"

definition cap_ok :: "jsstring \<Rightarrow> mstate \<Rightarrow> jsstring \<Rightarrow> bool" where
  \<comment> \<open>during a match of \<open>s0\<close> with \<open>s\<close> left: the group was opened inside \<open>s0\<close> and before
     \<open>s\<close>, and its text is a subsequence of what has been consumed\<close>
  "cap_ok s0 st s \<longleftrightarrow>
     suffix s s0 \<and>
     (fst st = [] \<or> (suffix (fst st) s0 \<and> suffix s (fst st))) \<and>
     (\<forall>g. snd st = Some g \<longrightarrow> subseq g (take (length s0 - length s) s0))"


definition markup_patterns :: "regex list" where
  \<comment> \<open>the HTML and Markdown patterns of \<open>cleanHtmlAndFormatText\<close>, lines 119 to 144\<close>
  "markup_patterns =
     [re_br, re_tag ''<p>'', re_tag ''</p>'', re_tag ''<li>'', re_tag ''</li>'', re_tag ''<ul>'',
      re_tag ''</ul>'', re_tag ''<ol>'', re_tag ''</ol>'', re_h_open, re_h_close,
      re_tag2 ''<strong>'' ''<b>'', re_tag2 ''</strong>'' ''</b>'', re_tag2 ''<em>'' ''<i>'',
      re_tag2 ''</em>'' ''</i>'', re_any_tag,
      re_delim ''**'', re_delim ''*'', re_delim ''__'', re_delim ''_'', re_link]"

definition clean_text :: "jsstring \<Rightarrow> bool" where
  \<comment> \<open>non-empty text that is free of markup (no pattern of the cleaner occurs in it) and
     normalised (trimmed, no run of three newlines)\<close>
  "clean_text x \<longleftrightarrow>
     x \<noteq> [] \<and> trim x = x \<and> list_all (\<lambda>re. no_match re x) markup_patterns \<and>
     no_match re_newlines3 x"

definition format_twice :: "(jsstring \<Rightarrow> jsstring) \<Rightarrow> jsstring \<Rightarrow> js_error + jsstring" where
  \<comment> \<open>\<open>format(format(x))\<close>\<close>
  "format_twice num x = (case format num x of Inl e \<Rightarrow> Inl e | Inr y \<Rightarrow> format num y)"


section \<open>Strings: basic facts\<close>

lemma trim_blank: "list_all isWhiteSpace s \<Longrightarrow> trim s = []"
proof -
  assume "list_all isWhiteSpace s"
  then have d: "dropWhile isWhiteSpace s = []"
    by (simp add: list_all_iff)
  show ?thesis
    unfolding trim_def d by simp
qed

lemma trim_Nil_iff: "trim s = [] \<longleftrightarrow> list_all isWhiteSpace s"
proof
  assume "trim s = []"
  then have "dropWhile isWhiteSpace (rev (dropWhile isWhiteSpace s)) = []"
    by (simp add: trim_def)
  then have "\<forall>x \<in> set (dropWhile isWhiteSpace s). isWhiteSpace x"
    by simp
  then have "dropWhile isWhiteSpace s = []"
    by (metis hd_dropWhile hd_in_set)
  then show "list_all isWhiteSpace s"
    by (simp add: list_all_iff)
qed (rule trim_blank)

lemma json_ws_isWhiteSpace: "json_ws c \<Longrightarrow> isWhiteSpace c"
  by (auto simp: json_ws_def isWhiteSpace_def isLineTerminator_def)

lemma trim_Cons_nonws:
  assumes "\<not> isWhiteSpace c"
  shows "\<exists>r'. trim (c # r) = c # r'"
proof -
  have "\<exists>zs. dropWhile isWhiteSpace (rev r @ [c]) = zs @ [c]"
    using assms by (simp add: dropWhile_append)
  then obtain zs where "dropWhile isWhiteSpace (rev r @ [c]) = zs @ [c]" ..
  then show ?thesis using assms by (simp add: trim_def)
qed

lemma trim_dropWhile: "trim (dropWhile isWhiteSpace s) = trim s"
  by (simp add: trim_def)

lemma startsWith_Cons1: "startsWith (c # r) [d] \<longleftrightarrow> c = d"
  by (simp add: startsWith_def)

section \<open>JSON: the first token\<close>

lemma lex_head:
  "lex (c # cs) = Some (TLBrace # ts) \<Longrightarrow> \<not> json_ws c \<Longrightarrow> c = 0x7B"
  by (rule ccontr) (simp split: if_split_asm option.split_asm prod.split_asm)

lemma lex_skip_ws: "json_ws c \<Longrightarrow> lex (c # cs) = lex cs"
  by simp

lemma lex_first_brace:
  "lex raw = Some (TLBrace # ts) \<Longrightarrow> \<exists>r. dropWhile json_ws raw = 0x7B # r"
proof (induction raw)
  case Nil
  then show ?case by simp
next
  case (Cons c cs)
  show ?case
  proof (cases "json_ws c")
    case True
    with Cons.prems have "lex cs = Some (TLBrace # ts)"
      by (simp only: lex_skip_ws)
    with Cons.IH True show ?thesis by simp
  next
    case False
    with Cons.prems have "c = 0x7B"
      by (rule_tac lex_head)
    with False show ?thesis by simp
  qed
qed

lemma complete_bottom:
  "complete v st = Some (e', st') \<Longrightarrow> bottom_is_array st \<Longrightarrow>
     bottom_is_array st' \<and> (\<forall>w. e' \<noteq> EDone w)"
  by (cases "(v, st)" rule: complete.cases) (auto simp: bottom_is_array_def split: if_splits)

lemma complete_done:
  "complete v st = Some (e', st') \<Longrightarrow> st = [] \<Longrightarrow> e' = EDone v \<and> st' = []"
  by simp

lemma pstep_bottom:
  assumes "pstep (e, st) t = Some (e', st')" "bottom_is_array st"
  shows "(bottom_is_array st' \<and> (\<forall>v. e' \<noteq> EDone v)) \<or> (st' = [] \<and> (\<exists>vs. e' = EDone (JArray vs)))"
proof -
  obtain f st0 where st: "st = f # st0"
    using assms(2) by (cases st) (auto simp: bottom_is_array_def)
  have push: "\<And>g. bottom_is_array (g # st)"
    using assms(2) by (auto simp: bottom_is_array_def)
  have cmp: "\<And>v. complete v st = Some (e', st') \<Longrightarrow> bottom_is_array st' \<and> (\<forall>w. e' \<noteq> EDone w)"
    using assms(2) complete_bottom by blast
  have val: "value_token t st = Some (e', st') \<Longrightarrow> bottom_is_array st' \<and> (\<forall>v. e' \<noteq> EDone v)"
    using push cmp by (cases t) auto
  have key: "key_token t st = Some (e', st') \<Longrightarrow> bottom_is_array st' \<and> (\<forall>v. e' \<noteq> EDone v)"
    using assms(2) st by (cases "(t, st)" rule: key_token.cases) (auto simp: bottom_is_array_def)
  have clo_a: "close_array st = Some (e', st') \<Longrightarrow>
      (bottom_is_array st' \<and> (\<forall>v. e' \<noteq> EDone v)) \<or> (st' = [] \<and> (\<exists>vs. e' = EDone (JArray vs)))"
  proof (cases f)
    case (FArr vs)
    assume "close_array st = Some (e', st')"
    with st FArr have c: "complete (JArray (rev vs)) st0 = Some (e', st')" by simp
    show ?thesis
    proof (cases "st0 = []")
      case True
      with c show ?thesis by auto
    next
      case False
      with assms(2) st have "bottom_is_array st0" by (auto simp: bottom_is_array_def)
      with c complete_bottom[of _ st0 e' st'] show ?thesis by auto
    qed
  next
    case (FObj ps k)
    assume "close_array st = Some (e', st')"
    with st FObj show ?thesis by simp
  qed
  have clo_o: "close_object st = Some (e', st') \<Longrightarrow> bottom_is_array st' \<and> (\<forall>v. e' \<noteq> EDone v)"
  proof (cases f)
    case (FArr vs)
    assume "close_object st = Some (e', st')"
    with st FArr show ?thesis by simp
  next
    case (FObj ps k)
    assume a: "close_object st = Some (e', st')"
    with st FObj have k: "k = None" by (cases k) auto
    with a st FObj have c: "complete (JObject (object_of (rev ps))) st0 = Some (e', st')" by simp
    have "st0 \<noteq> []" using assms(2) st FObj by (auto simp: bottom_is_array_def)
    with assms(2) st have "bottom_is_array st0" by (auto simp: bottom_is_array_def)
    with c complete_bottom[of _ st0 e' st'] show ?thesis by auto
  qed
  show ?thesis
  proof (cases e)
    case EValue
    with assms(1) val show ?thesis by simp
  next
    case EValueOrClose
    with assms(1) val clo_a show ?thesis by (simp split: if_splits)
  next
    case EKeyOrClose
    with assms(1) key clo_o show ?thesis by (simp split: if_splits)
  next
    case EKey
    with assms(1) key show ?thesis by simp
  next
    case EColon
    with assms show ?thesis by (auto split: if_splits)
  next
    case ECommaOrClose
    show ?thesis
    proof (cases "t = TComma")
      case True
      with ECommaOrClose assms show ?thesis
        by (auto split: list.splits frame.splits option.splits)
    next
      case False
      with ECommaOrClose assms(1) clo_a clo_o show ?thesis by (simp split: if_splits)
    qed
  next
    case (EDone v)
    with assms(1) show ?thesis by simp
  qed
qed

lemma parse_tokens_bottom:
  "parse_tokens (e, st) ts = Some (EDone v, st') \<Longrightarrow> bottom_is_array st \<Longrightarrow>
     (\<forall>w. e \<noteq> EDone w) \<Longrightarrow> is_array v"
proof (induction ts arbitrary: e st)
  case Nil
  then show ?case by simp
next
  case (Cons t ts)
  then obtain e1 st1 where s1: "pstep (e, st) t = Some (e1, st1)"
    and r: "parse_tokens (e1, st1) ts = Some (EDone v, st')"
    by (auto split: option.splits)
  from pstep_bottom[OF s1 Cons.prems(2)] show ?case
  proof
    assume "bottom_is_array st1 \<and> (\<forall>v. e1 \<noteq> EDone v)"
    with Cons.IH r show ?thesis by blast
  next
    assume "st1 = [] \<and> (\<exists>vs. e1 = EDone (JArray vs))"
    then obtain vs where e1: "e1 = EDone (JArray vs)" and "st1 = []" by blast
    with r show ?thesis by (cases ts) (auto simp: is_array_def)
  qed
qed

lemma parse_tokens_done_stuck:
  "parse_tokens (EDone w, st) ts = Some (EDone v, st') \<Longrightarrow> v = w"
  by (cases ts) auto

lemma parse_object_first_token:
  assumes "parse_tokens (EValue, []) ts = Some (EDone (JObject ps), st')"
  shows "\<exists>ts'. ts = TLBrace # ts'"
proof (cases ts)
  case Nil
  with assms show ?thesis by simp
next
  case (Cons t ts')
  with assms obtain p where p: "value_token t [] = Some p"
    and r: "parse_tokens p ts' = Some (EDone (JObject ps), st')"
    by (auto split: option.splits)
  show ?thesis
  proof (cases t)
    case TLBracket
    with p r have "parse_tokens (EValueOrClose, [FArr []]) ts' = Some (EDone (JObject ps), st')"
      by auto
    then have "is_array (JObject ps)"
      by (rule parse_tokens_bottom) (simp_all add: bottom_is_array_def)
    then show ?thesis by (simp add: is_array_def)
  qed (use p r Cons in \<open>auto dest: parse_tokens_done_stuck\<close>)
qed

lemma JSON_parse_object_looks_like_json:
  assumes "JSON_parse raw = Inr (JObject ps)"
  shows "looks_like_json raw"
proof -
  from assms obtain ts st' where l: "lex raw = Some ts"
    and p: "parse_tokens (EValue, []) ts = Some (EDone (JObject ps), st')"
    by (auto simp: JSON_parse_def split: option.splits expect.splits prod.splits)
  from parse_object_first_token[OF p] obtain ts' where "ts = TLBrace # ts'" ..
  with l lex_first_brace obtain r where d: "dropWhile json_ws raw = 0x7B # r" by blast
  have "dropWhile isWhiteSpace raw = dropWhile isWhiteSpace (dropWhile json_ws raw)"
    by (induction raw) (auto simp: json_ws_isWhiteSpace)
  also have "\<dots> = 0x7B # r" using d by (simp add: isWhiteSpace_def isLineTerminator_def)
  finally have "trim raw = trim (0x7B # r)"
    using trim_dropWhile[of raw] by simp
  moreover obtain r' where "trim (0x7B # r) = 0x7B # r'"
    using trim_Cons_nonws[of "0x7B" r] by (auto simp: isWhiteSpace_def isLineTerminator_def)
  ultimately show ?thesis
    by (simp add: looks_like_json_def startsWith_def js_def)
qed

section \<open>JSON: the parser and the printer\<close>

lemma hex_split: "(n::nat) = (n div 4096) * 4096 + (n div 256 mod 16) * 256 + (n div 16 mod 16) * 16 + n mod 16"
proof -
  have e1: "n div 256 = n div 16 div 16" by (simp add: div_mult2_eq[symmetric])
  have e2: "n div 4096 = n div 256 div 16" by (simp add: div_mult2_eq[symmetric])
  have a: "n = (n div 16) * 16 + n mod 16" by simp
  have b: "n div 16 = (n div 256) * 16 + n div 16 mod 16" unfolding e1 by simp
  have c: "n div 256 = (n div 4096) * 16 + n div 256 mod 16" unfolding e2 by simp
  show ?thesis using a b c by linarith
qed

lemma hex_roundtrip_all:
  "list_all (\<lambda>n. hex_value (hex_digit n) = Some (of_nat n)) [0..<16]"
  by code_simp

lemma hex_roundtrip: "n < 16 \<Longrightarrow> hex_value (hex_digit n) = Some (of_nat n)"
proof -
  assume "n < 16"
  then have "n \<in> set [0..<16]" by simp
  with hex_roundtrip_all show ?thesis
    unfolding list_all_iff by blast
qed

lemma hex_join:
  fixes c :: jschar
  shows "of_nat (unat c div 4096) * 4096 + of_nat (unat c div 256 mod 16) * 256
       + of_nat (unat c div 16 mod 16) * 16 + of_nat (unat c mod 16) = c"
proof -
  have id: "(of_nat (unat c) :: jschar) = c" by simp
  have "(of_nat (unat c) :: jschar) = of_nat ((unat c div 4096) * 4096 + (unat c div 256 mod 16) * 256 + (unat c div 16 mod 16) * 16 + unat c mod 16)"
    using hex_split[of "unat c"] by simp
  then have "c = of_nat (unat c div 4096) * 4096 + of_nat (unat c div 256 mod 16) * 256
       + of_nat (unat c div 16 mod 16) * 16 + of_nat (unat c mod 16)"
    unfolding id by (simp only: of_nat_add of_nat_mult of_nat_numeral)
  then show ?thesis by (rule sym)
qed

lemma lex_string_unicode_escape:
  "lex_string (unicode_escape c @ tail) = map_option (\<lambda>(v, r). (c # v, r)) (lex_string tail)"
proof -
  have lt: "unat c div 4096 < 16" "unat c div 256 mod 16 < 16" "unat c div 16 mod 16 < 16"
    "unat c mod 16 < 16"
    using unsigned_less[of c, where 'a = nat] by simp_all
  have "lex_string (unicode_escape c @ tail) =
    (case (hex_value (hex_digit (unat c div 4096)), hex_value (hex_digit (unat c div 256 mod 16)),
           hex_value (hex_digit (unat c div 16 mod 16)), hex_value (hex_digit (unat c mod 16))) of
       (Some a, Some b, Some c', Some d) \<Rightarrow>
          map_option (\<lambda>(v, rest). ((a * 4096 + b * 256 + c' * 16 + d) # v, rest)) (lex_string tail)
     | _ \<Rightarrow> None)"
    by (simp add: unicode_escape_def lex_string.simps)
  also have "\<dots> = map_option (\<lambda>(v, r). (c # v, r)) (lex_string tail)"
    unfolding hex_roundtrip[OF lt(1)] hex_roundtrip[OF lt(2)] hex_roundtrip[OF lt(3)]
      hex_roundtrip[OF lt(4)]
    by (simp only: prod.case option.case hex_join)
  finally show ?thesis .
qed


lemma lex_string_quote_unit:
  "lex_string (quote_unit c @ tail) = map_option (\<lambda>(v, r). (c # v, r)) (lex_string tail)"
proof -
  consider (esc) "c = 0x08 \<or> c = 0x09 \<or> c = 0x0A \<or> c = 0x0C \<or> c = 0x0D \<or> c = 0x22 \<or> c = 0x5C"
    | (uni) "\<not> (c = 0x08 \<or> c = 0x09 \<or> c = 0x0A \<or> c = 0x0C \<or> c = 0x0D \<or> c = 0x22 \<or> c = 0x5C)"
        "c < 0x20 \<or> high_surrogate c \<or> low_surrogate c"
    | (plain) "\<not> (c = 0x08 \<or> c = 0x09 \<or> c = 0x0A \<or> c = 0x0C \<or> c = 0x0D \<or> c = 0x22 \<or> c = 0x5C)"
        "\<not> (c < 0x20 \<or> high_surrogate c \<or> low_surrogate c)"
    by blast
  then show ?thesis
  proof cases
    case esc
    then show ?thesis
      by (auto simp: quote_unit_def lex_string.simps BACKSLASH_def js_def simple_escape_def)
  next
    case uni
    then have "quote_unit c = unicode_escape c"
      by (simp add: quote_unit_def)
    then show ?thesis by (simp only: lex_string_unicode_escape)
  next
    case plain
    then have "quote_unit c = [c]"
      by (simp add: quote_unit_def)
    with plain show ?thesis by (simp add: lex_string.simps)
  qed
qed

lemma surrogate_plain:
  "high_surrogate c \<or> low_surrogate c \<Longrightarrow> c \<noteq> 0x22 \<and> c \<noteq> 0x5C \<and> \<not> c < 0x20"
  by (auto simp: high_surrogate_def low_surrogate_def word_le_nat_alt word_less_nat_alt)

lemma lex_string_quote_body:
  "lex_string (quote_body s @ 0x22 # rest) = Some (s, rest)"
proof (induction s rule: quote_body.induct)
  case 1
  then show ?case by (simp add: lex_string.simps)
next
  case (2 c)
  then show ?case by (simp add: lex_string_quote_unit lex_string.simps)
next
  case (3 c d cs)
  show ?case
  proof (cases "high_surrogate c \<and> low_surrogate d")
    case True
    then have "c \<noteq> 0x22" "c \<noteq> 0x5C" "\<not> c < 0x20" "d \<noteq> 0x22" "d \<noteq> 0x5C" "\<not> d < 0x20"
      using surrogate_plain[of c] surrogate_plain[of d] by auto
    with True 3 show ?thesis by (simp add: lex_string.simps)
  next
    case False
    then have q: "quote_body (c # d # cs) = quote_unit c @ quote_body (d # cs)"
      by auto
    show ?thesis
      unfolding q using "3.IH"(2)[OF False] by (simp add: lex_string_quote_unit)
  qed
qed

section \<open>The response formatter: properties\<close>

text \<open>
  Claim C4. A response body that is empty or consists only of white space is answered by
  the fixed notice: the formatter stage of \<open>sendMessageToWebhook\<close> returns it, the
  notice is not the empty string, and nothing is thrown.
\<close>

theorem format_blank_gives_notice:
  "list_all isWhiteSpace textData \<Longrightarrow>
     format num textData = Inr EMPTY_RESPONSE \<and>
     sendMessageToWebhook num (Response \<lparr>ok = True, status = code, body = textData\<rparr>)
       = Inr EMPTY_RESPONSE \<and>
     EMPTY_RESPONSE \<noteq> []"
  by (simp add: format_def sendMessageToWebhook_def trim_blank EMPTY_RESPONSE_def js_def)

theorem format_blank_gives_notice_witness:
  "list_all isWhiteSpace [0x20, 0x0A, 0xA0] \<and>
   format (\<lambda>l. l) [0x20, 0x0A, 0xA0] = Inr EMPTY_RESPONSE \<and>
   format (\<lambda>l. l) [] = Inr EMPTY_RESPONSE"
  using format_blank_gives_notice[of "[0x20, 0x0A, 0xA0]" "\<lambda>l. l" 200]
    format_blank_gives_notice[of "[]" "\<lambda>l. l" 200]
  by (simp add: isWhiteSpace_def isLineTerminator_def)

lemma string_prop_object:
  "string_prop num (JObject ps) k = (case map_of ps k of Some (JString s) \<Rightarrow> Some s | _ \<Rightarrow> None)"
  by (simp add: string_prop_def truthy_def get_prop_def)

lemma first_string_prop_index:
  "i < length ks \<Longrightarrow> string_prop num d (ks ! i) = Some s \<Longrightarrow>
   (\<forall>j<i. string_prop num d (ks ! j) = None) \<Longrightarrow> first_string_prop num d ks = Some s"
proof (induction ks arbitrary: i)
  case Nil
  then show ?case by simp
next
  case (Cons k ks)
  show ?case
  proof (cases i)
    case 0
    with Cons.prems show ?thesis by simp
  next
    case (Suc i')
    with Cons.prems have "string_prop num d k = None" by auto
    moreover have "first_string_prop num d ks = Some s"
    proof (rule Cons.IH[of i'])
      show "i' < length ks" using Cons.prems Suc by simp
      show "string_prop num d (ks ! i') = Some s" using Cons.prems Suc by simp
      show "\<forall>j<i'. string_prop num d (ks ! j) = None"
        using Cons.prems(3) Suc by (metis Suc_less_eq nth_Cons_Suc)
    qed
    ultimately show ?thesis by simp
  qed
qed

lemma first_string_prop_none:
  "(\<forall>k \<in> set ks. string_prop num d k = None) \<Longrightarrow> first_string_prop num d ks = None"
  by (induction ks) auto

lemma not_string_prop:
  "(\<forall>s'. map_of ps k \<noteq> Some (JString s')) \<Longrightarrow> string_prop num (JObject ps) k = None"
  by (auto simp: string_prop_object split: option.splits json.splits)

lemma pick_response_top:
  "first_string_prop num (JObject ps) top_fields = Some s \<Longrightarrow>
   pick_response num (JObject ps) = Some (cleanHtmlAndFormatText s)"
  by (simp add: pick_response_def)

lemma pick_response_nested:
  "first_string_prop num (JObject ps) top_fields = None \<Longrightarrow>
   nested_string_prop num (JObject ps) = Some s \<Longrightarrow>
   pick_response num (JObject ps) = Some (cleanHtmlAndFormatText s)"
  by (simp add: pick_response_def)

lemma formatResponseText_parsed:
  "JSON_parse raw = Inr (JObject ps) \<Longrightarrow> pick_response num (JObject ps) = Some r \<Longrightarrow>
   formatResponseText num raw = Inr r"
  using JSON_parse_object_looks_like_json[of raw ps]
  by (simp add: formatResponseText_def try_block_def)

lemma lex_object1:
  "lex (0x7B # quote k @ 0x3A # quote s @ [0x7D]) = Some [TLBrace, TStr k, TColon, TStr s, TRBrace]"
  by (simp add: quote_def json_ws_def lex_string_quote_body)

lemma array_index_response: "array_index (js ''response'') = None"
  by (simp add: array_index_def js_def is_digit_def)

lemma JSON_parse_response_object:
  "JSON_parse (JSON_stringify num (JObject [(js ''response'', JString s)]))
     = Inr (JObject [(js ''response'', JString s)])"
proof -
  have t: "JSON_stringify num (JObject [(js ''response'', JString s)])
      = 0x7B # quote (js ''response'') @ 0x3A # quote s @ [0x7D]"
    by (simp add: js_def)
  have o: "object_of [(js ''response'', JString s)] = [(js ''response'', JString s)]"
    by (simp add: object_of_def array_index_response)
  show ?thesis
    unfolding t JSON_parse_def lex_object1 by (simp add: o)
qed

text \<open>
  Claim C2. When the input parses as a JSON object, the field names are tried in the order
  \<open>output, response, message, text, content, result, answer, data\<close>, then
  \<open>response, message, text\<close> under \<open>data\<close>, and the result is the cleaning of the
  first field that holds a string. In particular the object \<open>{"response": s}\<close>, as
  \<open>JSON.stringify\<close> prints it, gives the cleaning of \<open>s\<close> for every string \<open>s\<close>.
\<close>

theorem formatResponseText_field_precedence:
  "(JSON_parse raw = Inr (JObject ps) \<longrightarrow>
      (\<forall>i s. i < length top_fields \<and> map_of ps (top_fields ! i) = Some (JString s) \<and>
             (\<forall>j<i. \<forall>s'. map_of ps (top_fields ! j) \<noteq> Some (JString s'))
         \<longrightarrow> formatResponseText num raw = Inr (cleanHtmlAndFormatText s)) \<and>
      (\<forall>i s qs. (\<forall>k \<in> set top_fields. \<forall>s'. map_of ps k \<noteq> Some (JString s')) \<and>
             map_of ps (js ''data'') = Some (JObject qs) \<and>
             i < length nested_fields \<and> map_of qs (nested_fields ! i) = Some (JString s) \<and>
             (\<forall>j<i. \<forall>s'. map_of qs (nested_fields ! j) \<noteq> Some (JString s'))
         \<longrightarrow> formatResponseText num raw = Inr (cleanHtmlAndFormatText s))) \<and>
   top_fields = [js ''output'', js ''response'', js ''message'', js ''text'', js ''content'',
                 js ''result'', js ''answer'', js ''data''] \<and>
   nested_fields = [js ''response'', js ''message'', js ''text''] \<and>
   (\<forall>s. formatResponseText num (JSON_stringify num (JObject [(js ''response'', JString s)]))
          = Inr (cleanHtmlAndFormatText s))"
proof (intro conjI impI allI)
  fix i s
  assume p: "JSON_parse raw = Inr (JObject ps)"
    and h: "i < length top_fields \<and> map_of ps (top_fields ! i) = Some (JString s) \<and>
             (\<forall>j<i. \<forall>s'. map_of ps (top_fields ! j) \<noteq> Some (JString s'))"
  have "first_string_prop num (JObject ps) top_fields = Some s"
  proof (rule first_string_prop_index[of i])
    show "i < length top_fields" using h by simp
    show "string_prop num (JObject ps) (top_fields ! i) = Some s"
      using h by (simp add: string_prop_object)
    show "\<forall>j<i. string_prop num (JObject ps) (top_fields ! j) = None"
      using h not_string_prop by blast
  qed
  then show "formatResponseText num raw = Inr (cleanHtmlAndFormatText s)"
    using p formatResponseText_parsed pick_response_top by blast
next
  fix i s qs
  assume p: "JSON_parse raw = Inr (JObject ps)"
    and h: "(\<forall>k \<in> set top_fields. \<forall>s'. map_of ps k \<noteq> Some (JString s')) \<and>
             map_of ps (js ''data'') = Some (JObject qs) \<and>
             i < length nested_fields \<and> map_of qs (nested_fields ! i) = Some (JString s) \<and>
             (\<forall>j<i. \<forall>s'. map_of qs (nested_fields ! j) \<noteq> Some (JString s'))"
  have top: "first_string_prop num (JObject ps) top_fields = None"
    using h not_string_prop by (intro first_string_prop_none) blast
  have "first_string_prop num (JObject qs) nested_fields = Some s"
  proof (rule first_string_prop_index[of i])
    show "i < length nested_fields" using h by simp
    show "string_prop num (JObject qs) (nested_fields ! i) = Some s"
      using h by (simp add: string_prop_object)
    show "\<forall>j<i. string_prop num (JObject qs) (nested_fields ! j) = None"
      using h not_string_prop by blast
  qed
  then have "nested_string_prop num (JObject ps) = Some s"
    using h by (simp add: nested_string_prop_def truthy_def get_prop_def)
  then show "formatResponseText num raw = Inr (cleanHtmlAndFormatText s)"
    using p top formatResponseText_parsed pick_response_nested by blast
next
  show "top_fields = [js ''output'', js ''response'', js ''message'', js ''text'', js ''content'',
                 js ''result'', js ''answer'', js ''data'']"
    by (simp add: top_fields_def)
next
  show "nested_fields = [js ''response'', js ''message'', js ''text'']"
    by (simp add: nested_fields_def)
next
  fix s
  have "first_string_prop num (JObject [(js ''response'', JString s)]) top_fields = Some s"
    by (simp add: top_fields_def string_prop_object js_def)
  then show "formatResponseText num (JSON_stringify num (JObject [(js ''response'', JString s)]))
          = Inr (cleanHtmlAndFormatText s)"
    using JSON_parse_response_object formatResponseText_parsed pick_response_top by blast
qed

theorem formatResponseText_field_precedence_witness:
  "JSON_parse (js ''{'' @ dq ''output'' @ js '': '' @ dq ''A'' @ js '', '' @ dq ''response'' @
                 js '': '' @ dq ''B'' @ js ''}'')
     = Inr (JObject [(js ''output'', JString (js ''A'')), (js ''response'', JString (js ''B''))]) \<and>
   formatResponseText (\<lambda>l. l)
     (js ''{'' @ dq ''output'' @ js '': '' @ dq ''A'' @ js '', '' @ dq ''response'' @
        js '': '' @ dq ''B'' @ js ''}'')
     = Inr (cleanHtmlAndFormatText (js ''A'')) \<and>
   cleanHtmlAndFormatText (js ''A'') = js ''A'' \<and>
   JSON_parse (js ''{'' @ dq ''data'' @ js '': {'' @ dq ''message'' @ js '': '' @ dq ''hi'' @ js ''}}'')
     = Inr (JObject [(js ''data'', JObject [(js ''message'', JString (js ''hi''))])]) \<and>
   formatResponseText (\<lambda>l. l)
     (js ''{'' @ dq ''data'' @ js '': {'' @ dq ''message'' @ js '': '' @ dq ''hi'' @ js ''}}'')
     = Inr (cleanHtmlAndFormatText (js ''hi''))"
proof -
  let ?raw = "js ''{'' @ dq ''output'' @ js '': '' @ dq ''A'' @ js '', '' @ dq ''response'' @
                 js '': '' @ dq ''B'' @ js ''}''"
  let ?ps = "[(js ''output'', JString (js ''A'')), (js ''response'', JString (js ''B''))]"
  let ?raw2 = "js ''{'' @ dq ''data'' @ js '': {'' @ dq ''message'' @ js '': '' @ dq ''hi'' @ js ''}}''"
  let ?qs = "[(js ''message'', JString (js ''hi''))]"
  let ?ps2 = "[(js ''data'', JObject ?qs)]"
  have p: "JSON_parse ?raw = Inr (JObject ?ps)"
    by code_simp
  have p2: "JSON_parse ?raw2 = Inr (JObject ?ps2)"
    by code_simp
  have c: "cleanHtmlAndFormatText (js ''A'') = js ''A''"
    by code_simp
  have h: "0 < length top_fields \<and> map_of ?ps (top_fields ! 0) = Some (JString (js ''A'')) \<and>
      (\<forall>j<0. \<forall>s'. map_of ?ps (top_fields ! j) \<noteq> Some (JString s'))"
    by (simp add: top_fields_def)
  have h2: "(\<forall>k \<in> set top_fields. \<forall>s'. map_of ?ps2 k \<noteq> Some (JString s')) \<and>
      map_of ?ps2 (js ''data'') = Some (JObject ?qs) \<and>
      1 < length nested_fields \<and> map_of ?qs (nested_fields ! 1) = Some (JString (js ''hi'')) \<and>
      (\<forall>j<1. \<forall>s'. map_of ?qs (nested_fields ! j) \<noteq> Some (JString s'))"
    by (simp add: top_fields_def nested_fields_def js_def)
  note T = formatResponseText_field_precedence[of ?raw ?ps "\<lambda>l. l"]
  note T2 = formatResponseText_field_precedence[of ?raw2 ?ps2 "\<lambda>l. l"]
  have r: "formatResponseText (\<lambda>l. l) ?raw = Inr (cleanHtmlAndFormatText (js ''A''))"
    by (rule T[THEN conjunct1, THEN mp, OF p, THEN conjunct1, THEN spec, THEN spec, THEN mp, OF h])
  have r2: "formatResponseText (\<lambda>l. l) ?raw2 = Inr (cleanHtmlAndFormatText (js ''hi''))"
    by (rule T2[THEN conjunct1, THEN mp, OF p2, THEN conjunct2, THEN spec, THEN spec, THEN spec,
          THEN mp, OF h2])
  show ?thesis
    by (rule conjI[OF p conjI[OF r conjI[OF c conjI[OF p2 r2]]]])
qed

lemma formatResponseText_total: "\<exists>r. formatResponseText num raw = Inr r"
  by (simp add: formatResponseText_def split: sum.splits option.splits)

text \<open>
  Claim C3. \<open>formatResponseText\<close> returns a string for every input and throws nothing:
  the only statement that can throw, \<open>JSON.parse\<close>, is inside \<open>try\<close>. Text that does
  not look like JSON and text that \<open>JSON.parse\<close> rejects are cleaned as they are; a
  parsed object or array in which no candidate field, first element or long property is a
  string is printed by \<open>JSON.stringify\<close>, cleaned, and labelled \<open>Response: \<close>.
\<close>

theorem formatResponseText_never_throws:
  "(\<exists>r. formatResponseText num raw = Inr r) \<and>
   (\<not> looks_like_json raw \<longrightarrow> formatResponseText num raw = Inr (cleanHtmlAndFormatText raw)) \<and>
   (\<forall>e. JSON_parse raw = Inl e \<longrightarrow> formatResponseText num raw = Inr (cleanHtmlAndFormatText raw)) \<and>
   (\<forall>d. looks_like_json raw \<and> JSON_parse raw = Inr d \<and> is_object d \<and>
        first_string_prop num d top_fields = None \<and> nested_string_prop num d = None \<and>
        (\<forall>s vs. d \<noteq> JArray (JString s # vs)) \<and>
        first_long_string (enumerable_values d) = None
      \<longrightarrow> formatResponseText num raw
            = Inr (js ''Response: '' @ cleanHtmlAndFormatText (JSON_stringify num d)))"
proof (intro conjI allI impI)
  show "\<exists>r. formatResponseText num raw = Inr r"
    by (rule formatResponseText_total)
next
  assume "\<not> looks_like_json raw"
  then show "formatResponseText num raw = Inr (cleanHtmlAndFormatText raw)"
    by (simp add: formatResponseText_def)
next
  fix e
  assume "JSON_parse raw = Inl e"
  then show "formatResponseText num raw = Inr (cleanHtmlAndFormatText raw)"
    by (simp add: formatResponseText_def try_block_def)
next
  fix d
  assume h: "looks_like_json raw \<and> JSON_parse raw = Inr d \<and> is_object d \<and>
        first_string_prop num d top_fields = None \<and> nested_string_prop num d = None \<and>
        (\<forall>s vs. d \<noteq> JArray (JString s # vs)) \<and>
        first_long_string (enumerable_values d) = None"
  then have "pick_response num d
      = Some (js ''Response: '' @ cleanHtmlAndFormatText (JSON_stringify num d))"
    by (auto simp: pick_response_def is_object_def split: json.splits list.splits)
  with h show "formatResponseText num raw
            = Inr (js ''Response: '' @ cleanHtmlAndFormatText (JSON_stringify num d))"
    by (simp add: formatResponseText_def try_block_def)
qed

theorem formatResponseText_never_throws_witness:
  "\<not> looks_like_json (js ''Hello <b>you</b>'') \<and>
   formatResponseText (\<lambda>l. l) (js ''Hello <b>you</b>'') = Inr (js ''Hello you'') \<and>
   JSON_parse (js ''{'' @ dq ''a'' @ js '':'') = Inl SyntaxError \<and>
   formatResponseText (\<lambda>l. l) (js ''{'' @ dq ''a'' @ js '':'') = Inr (js ''{'' @ dq ''a'' @ js '':'') \<and>
   JSON_parse (js ''{'' @ dq ''a'' @ js '':1}'') = Inr (JObject [(js ''a'', JNumber (js ''1''))]) \<and>
   formatResponseText (\<lambda>l. l) (js ''{'' @ dq ''a'' @ js '':1}'')
     = Inr (js ''Response: {'' @ dq ''a'' @ js '':1}'') \<and>
   JSON_parse (js ''[1,'' @ dq ''x'' @ js '']'') = Inr (JArray [JNumber (js ''1''), JString (js ''x'')]) \<and>
   formatResponseText (\<lambda>l. l) (js ''[1,'' @ dq ''x'' @ js '']'')
     = Inr (js ''Response: [1,'' @ dq ''x'' @ js '']'')"
proof -
  let ?num = "\<lambda>l::jsstring. l"
  let ?t1 = "js ''Hello <b>you</b>''"
  let ?t2 = "js ''{'' @ dq ''a'' @ js '':''"
  let ?t3 = "js ''{'' @ dq ''a'' @ js '':1}''"
  let ?d3 = "JObject [(js ''a'', JNumber (js ''1''))]"
  let ?t4 = "js ''[1,'' @ dq ''x'' @ js '']''"
  let ?d4 = "JArray [JNumber (js ''1''), JString (js ''x'')]"
  have n1: "\<not> looks_like_json ?t1" by code_simp
  have c1: "cleanHtmlAndFormatText ?t1 = js ''Hello you''" by code_simp
  have p2: "JSON_parse ?t2 = Inl SyntaxError" by code_simp
  have c2: "cleanHtmlAndFormatText ?t2 = ?t2" by code_simp
  have p3: "JSON_parse ?t3 = Inr ?d3" by code_simp
  have h3: "looks_like_json ?t3 \<and> JSON_parse ?t3 = Inr ?d3 \<and> is_object ?d3 \<and>
        first_string_prop ?num ?d3 top_fields = None \<and> nested_string_prop ?num ?d3 = None \<and>
        (\<forall>s vs. ?d3 \<noteq> JArray (JString s # vs)) \<and>
        first_long_string (enumerable_values ?d3) = None"
    by (intro conjI p3) (code_simp, simp_all, code_simp+)
  have c3: "js ''Response: '' @ cleanHtmlAndFormatText (JSON_stringify ?num ?d3)
      = js ''Response: {'' @ dq ''a'' @ js '':1}''" by code_simp
  have p4: "JSON_parse ?t4 = Inr ?d4" by code_simp
  have h4: "looks_like_json ?t4 \<and> JSON_parse ?t4 = Inr ?d4 \<and> is_object ?d4 \<and>
        first_string_prop ?num ?d4 top_fields = None \<and> nested_string_prop ?num ?d4 = None \<and>
        (\<forall>s vs. ?d4 \<noteq> JArray (JString s # vs)) \<and>
        first_long_string (enumerable_values ?d4) = None"
    by (intro conjI p4) (code_simp, simp_all, code_simp+)
  have c4: "js ''Response: '' @ cleanHtmlAndFormatText (JSON_stringify ?num ?d4)
      = js ''Response: [1,'' @ dq ''x'' @ js '']''" by code_simp
  note T1 = formatResponseText_never_throws[of ?num ?t1]
  note T2 = formatResponseText_never_throws[of ?num ?t2]
  note T3 = formatResponseText_never_throws[of ?num ?t3]
  note T4 = formatResponseText_never_throws[of ?num ?t4]
  have r1: "formatResponseText ?num ?t1 = Inr (js ''Hello you'')"
    using T1[THEN conjunct2, THEN conjunct1, THEN mp, OF n1] unfolding c1 .
  have r2: "formatResponseText ?num ?t2 = Inr ?t2"
    using T2[THEN conjunct2, THEN conjunct2, THEN conjunct1, THEN spec, THEN mp, OF p2]
    unfolding c2 .
  have r3: "formatResponseText ?num ?t3 = Inr (js ''Response: {'' @ dq ''a'' @ js '':1}'')"
    using T3[THEN conjunct2, THEN conjunct2, THEN conjunct2, THEN spec, THEN mp, OF h3]
    unfolding c3 .
  have r4: "formatResponseText ?num ?t4 = Inr (js ''Response: [1,'' @ dq ''x'' @ js '']'')"
    using T4[THEN conjunct2, THEN conjunct2, THEN conjunct2, THEN spec, THEN mp, OF h4]
    unfolding c4 .
  show ?thesis
    by (rule conjI[OF n1 conjI[OF r1 conjI[OF p2 conjI[OF r2 conjI[OF p3 conjI[OF r3 conjI[OF p4 r4]]]]]]])
qed

section \<open>The playback controller: chunking\<close>

lemma one_of_terminal: "one_of (js ''.!?'') = terminal"
  by (auto simp: one_of_def terminal_def js_def fun_eq_iff)

lemma none_of_terminal: "none_of (js ''.!?'') = (\<lambda>c. \<not> terminal c)"
  by (auto simp: none_of_def terminal_def js_def fun_eq_iff)

lemma terminal_not_ws: "terminal c \<Longrightarrow> \<not> isWhiteSpace c"
  by (auto simp: terminal_def isWhiteSpace_def isLineTerminator_def)

lemma rep_greedy_total:
  "(\<And>s. k s \<noteq> None) \<Longrightarrow> rep_greedy P 0 k s = k (dropWhile P s)"
proof (induction s)
  case Nil
  then show ?case by simp
next
  case (Cons c cs)
  then obtain r where "k (dropWhile P cs) = Some r" by (meson option.exhaust)
  with Cons show ?case by simp
qed

lemma rep_greedy_one:
  "(\<And>s. k s \<noteq> None) \<Longrightarrow>
   rep_greedy P (Suc 0) k s = (case s of [] \<Rightarrow> None | c # cs \<Rightarrow> if P c then k (dropWhile P cs) else None)"
proof (cases s)
  case Nil
  then show ?thesis by simp
next
  case (Cons c cs)
  assume t: "\<And>s. k s \<noteq> None"
  then obtain r where "k (dropWhile P cs) = Some r" by (meson option.exhaust)
  with Cons rep_greedy_total[of k P cs, OF t] show ?thesis by simp
qed

lemma sentence_after:
  "d = [] \<or> terminal (hd d) \<Longrightarrow>
   rx_seq [Opt terminal, Rep isWhiteSpace 0] st d = Some (st, sentence_rest d)"
  by (cases d) (auto simp: rep_greedy_total)

lemma dropWhile_head: "dropWhile P xs = [] \<or> \<not> P (hd (dropWhile P xs))"
  using hd_dropWhile[of P xs] by blast

lemma sentence_after_run:
  "rx_seq [Opt terminal, Rep isWhiteSpace 0] st (dropWhile (\<lambda>c. \<not> terminal c) cs)
     = Some (st, sentence_rest (dropWhile (\<lambda>c. \<not> terminal c) cs))"
  using dropWhile_head[of "\<lambda>c. \<not> terminal c" cs] by (intro sentence_after) blast

lemma sentence_tail_rest: "sentence_tail d @ sentence_rest d = d"
  by (cases d) auto

lemma sentence_cont_total: "rx_seq [Opt terminal, Rep isWhiteSpace 0] st s \<noteq> None"
  by (cases s) (auto simp: rep_greedy_total)

lemma exec_sentence_Nil: "rx_exec re_sentence [] = None"
  by (simp add: re_sentence_def)

lemma exec_sentence_Cons:
  "rx_exec re_sentence (c # cs) =
     (if terminal c then None
      else Some (([], None), sentence_rest (dropWhile (\<lambda>c. \<not> terminal c) cs)))"
proof -
  have "rx_exec re_sentence (c # cs)
      = rep_greedy (\<lambda>c. \<not> terminal c) (Suc 0) (rx_seq [Opt terminal, Rep isWhiteSpace 0] ([], None)) (c # cs)"
    by (simp add: re_sentence_def one_of_terminal none_of_terminal split: option.splits)
  also have "\<dots> = (if \<not> terminal c
      then rx_seq [Opt terminal, Rep isWhiteSpace 0] ([], None) (dropWhile (\<lambda>c. \<not> terminal c) cs)
      else None)"
    using rep_greedy_one[of "rx_seq [Opt terminal, Rep isWhiteSpace 0] ([], None)" "\<lambda>c. \<not> terminal c" "c # cs"]
      sentence_cont_total by simp
  finally have e: "rx_exec re_sentence (c # cs) = (if \<not> terminal c
      then rx_seq [Opt terminal, Rep isWhiteSpace 0] ([], None) (dropWhile (\<lambda>c. \<not> terminal c) cs)
      else None)" .
  show ?thesis
  proof (cases "terminal c")
    case True
    with e show ?thesis by simp
  next
    case False
    show ?thesis
      unfolding e by (simp only: False sentence_after_run not_False_eq_True if_True if_False)
  qed
qed

lemma match_from_skip: "k \<le> length s \<Longrightarrow> match_from re k s = match_from re 0 (drop k s)"
proof (induction k arbitrary: s)
  case 0
  then show ?case by simp
next
  case (Suc k)
  then show ?case by (cases s) auto
qed

lemma length_sentence_rest: "length (sentence_rest s) \<le> length s"
  by (cases s) (auto simp: length_dropWhile_le le_SucI)

lemma sentence_split:
  "c # cs = sentence_match c cs @ sentence_rest (dropWhile (\<lambda>c. \<not> terminal c) cs)"
proof -
  let ?d = "dropWhile (\<lambda>c. \<not> terminal c) cs"
  have "sentence_match c cs @ sentence_rest ?d
      = c # takeWhile (\<lambda>c. \<not> terminal c) cs @ (sentence_tail ?d @ sentence_rest ?d)"
    unfolding sentence_match_def by simp
  also have "\<dots> = c # cs"
    unfolding sentence_tail_rest by simp
  finally show ?thesis by (rule sym)
qed

lemma match_from_sentence_Cons:
  "match_from re_sentence 0 (c # cs) =
     (if terminal c then match_from re_sentence 0 cs
      else sentence_match c cs # match_from re_sentence 0 (sentence_rest (dropWhile (\<lambda>c. \<not> terminal c) cs)))"
proof (cases "terminal c")
  case True
  then show ?thesis by (simp add: exec_sentence_Cons)
next
  case False
  let ?rest = "sentence_rest (dropWhile (\<lambda>c. \<not> terminal c) cs)"
  have sp: "c # cs = sentence_match c cs @ ?rest" by (rule sentence_split)
  have len: "length (c # cs) - length ?rest = length (sentence_match c cs)"
    by (subst sp) (simp only: length_append add_diff_cancel_right')
  have pos: "length (sentence_match c cs) = Suc (length (sentence_match c cs) - 1)"
    by (simp add: sentence_match_def)
  have tk: "take (length (sentence_match c cs)) (c # cs) = sentence_match c cs"
    by (subst sp) simp
  have "length cs = length (sentence_match c cs) - 1 + length ?rest"
    using arg_cong[OF sp, of length] pos by simp
  then have le: "length (sentence_match c cs) - 1 \<le> length cs" by simp
  have "drop (length (sentence_match c cs)) (c # cs) = ?rest"
    by (subst sp) simp
  then have dr: "drop (length (sentence_match c cs) - 1) cs = ?rest"
    using pos by (metis drop_Suc_Cons)
  have ex: "rx_exec re_sentence (c # cs) = Some (([], None), ?rest)"
    using False by (simp add: exec_sentence_Cons)
  have nz: "length (sentence_match c cs) \<noteq> 0"
    by (simp add: sentence_match_def)
  have "match_from re_sentence 0 (c # cs)
      = take (length (sentence_match c cs)) (c # cs) #
        match_from re_sentence (length (sentence_match c cs) - 1) cs"
    by (simp only: match_from.simps(3) ex option.case prod.case Let_def len nz if_False)
  also have "\<dots> = sentence_match c cs # match_from re_sentence 0 ?rest"
    unfolding tk match_from_skip[OF le] dr ..
  finally show ?thesis using False by simp
qed

declare match_from.simps [simp del]

lemma dropWhile_hd: "xs = [] \<or> \<not> P (hd xs) \<Longrightarrow> dropWhile P xs = xs"
  by (cases xs) auto

lemma trim_eq_Nil_or_ends:
  "trim s = [] \<or> (\<not> isWhiteSpace (hd (trim s)) \<and> \<not> isWhiteSpace (last (trim s)))"
proof (cases "dropWhile isWhiteSpace s")
  case Nil
  show ?thesis unfolding trim_def Nil by simp
next
  case (Cons c r)
  then have c: "\<not> isWhiteSpace c"
    using hd_dropWhile[of isWhiteSpace s] by auto
  let ?e = "dropWhile isWhiteSpace (rev (c # r))"
  have "\<exists>ys. ?e = ys @ [c]"
    using c by (simp add: dropWhile_append)
  then obtain ys where e: "?e = ys @ [c]" ..
  then have ne: "?e \<noteq> []" by simp
  have t: "trim s = rev ?e" unfolding trim_def Cons ..
  have "hd (trim s) = c" unfolding t e by simp
  moreover have "last (trim s) = hd ?e"
    unfolding t using ne by (simp add: last_rev)
  moreover have "\<not> isWhiteSpace (hd ?e)"
    using ne hd_dropWhile[of isWhiteSpace "rev (c # r)"] by blast
  ultimately show ?thesis using c by simp
qed

lemma trim_fixed:
  assumes "u = [] \<or> (\<not> isWhiteSpace (hd u) \<and> \<not> isWhiteSpace (last u))"
  shows "trim u = u"
proof (cases u)
  case Nil
  then show ?thesis by (simp add: trim_def)
next
  case (Cons c r)
  with assms have h: "\<not> isWhiteSpace c" and l: "\<not> isWhiteSpace (last u)" by auto
  have d: "dropWhile isWhiteSpace u = u" using Cons h by simp
  have "hd (rev u) = last u" using Cons by (simp add: hd_rev)
  then have "dropWhile isWhiteSpace (rev u) = rev u"
    using l by (intro dropWhile_hd) simp
  then show ?thesis unfolding trim_def d by simp
qed

lemma trim_idem: "trim (trim s) = trim s"
  using trim_eq_Nil_or_ends[of s] by (rule trim_fixed)

lemma trimmed_ends: "trim s = s \<Longrightarrow> s = [] \<or> (\<not> isWhiteSpace (hd s) \<and> \<not> isWhiteSpace (last s))"
  using trim_eq_Nil_or_ends[of s] by simp

lemma match_from_sentence_Nil: "match_from re_sentence 0 [] = []"
  by (simp add: exec_sentence_Nil match_from.simps)

lemma sentence_rest_shorter:
  "length (sentence_rest (dropWhile P cs)) < length (c # cs)"
proof -
  have "length (sentence_rest (dropWhile P cs)) \<le> length (dropWhile P cs)"
    by (rule length_sentence_rest)
  also have "\<dots> \<le> length cs" by (rule length_dropWhile_le)
  finally show ?thesis by simp
qed

lemma match_all_no_terminal:
  assumes "\<forall>x \<in> set s. \<not> terminal x" "s \<noteq> []"
  shows "match_from re_sentence 0 s = [s]"
proof -
  from assms obtain c cs where s: "s = c # cs" by (cases s) auto
  with assms have c: "\<not> terminal c" and cs: "\<forall>x \<in> set cs. \<not> terminal x" by auto
  from cs have d: "dropWhile (\<lambda>c. \<not> terminal c) cs = []" by simp
  from cs have t: "takeWhile (\<lambda>c. \<not> terminal c) cs = cs" by simp
  show ?thesis
    unfolding s match_from_sentence_Cons sentence_match_def d t
    using c by (simp add: match_from_sentence_Nil)
qed

text \<open>The form of a match: a run without terminal punctuation, then possibly one
  terminal character and white space.\<close>

lemma sentence_match_shape: "\<not> terminal c \<Longrightarrow> sentence_shape (sentence_match c cs)"
proof -
  assume c: "\<not> terminal c"
  let ?a = "c # takeWhile (\<lambda>c. \<not> terminal c) cs"
  let ?d = "dropWhile (\<lambda>c. \<not> terminal c) cs"
  have a: "\<forall>x \<in> set ?a. \<not> terminal x"
    using c by (auto dest: set_takeWhileD)
  have t: "sentence_tail ?d = [] \<or>
      (\<exists>p w. sentence_tail ?d = p # w \<and> terminal p \<and> (\<forall>x \<in> set w. isWhiteSpace x))"
  proof (cases ?d)
    case Nil
    show ?thesis unfolding Nil by simp
  next
    case (Cons p r)
    then have "terminal p" using hd_dropWhile[of "\<lambda>c. \<not> terminal c" cs] by auto
    then show ?thesis unfolding Cons by (auto dest: set_takeWhileD)
  qed
  have "sentence_match c cs = ?a @ sentence_tail ?d"
    by (simp add: sentence_match_def)
  with a t show ?thesis unfolding sentence_shape_def by blast
qed

lemma matches_shape:
  "\<forall>m \<in> set (match_from re_sentence 0 s). sentence_shape m"
proof (induction s rule: length_induct)
  case (1 s)
  show ?case
  proof (cases s)
    case Nil
    then show ?thesis by (simp add: match_from_sentence_Nil)
  next
    case (Cons c cs)
    show ?thesis
    proof (cases "terminal c")
      case True
      have "length cs < length s" using Cons by simp
      with 1 have "\<forall>m \<in> set (match_from re_sentence 0 cs). sentence_shape m" by blast
      with True Cons show ?thesis by (simp add: match_from_sentence_Cons)
    next
      case False
      let ?rest = "sentence_rest (dropWhile (\<lambda>c. \<not> terminal c) cs)"
      have "length ?rest < length s" unfolding Cons by (rule sentence_rest_shorter)
      with 1 have "\<forall>m \<in> set (match_from re_sentence 0 ?rest). sentence_shape m" by blast
      with False Cons sentence_match_shape[OF False, of cs] show ?thesis
        by (simp add: match_from_sentence_Cons)
    qed
  qed
qed

lemma trim_shape:
  assumes "sentence_shape m"
  shows "\<forall>x \<in> set (butlast (trim m)). \<not> terminal x"
proof -
  from assms obtain a t where m: "m = a @ t" and a: "a \<noteq> []" "\<forall>x \<in> set a. \<not> terminal x"
    and t: "t = [] \<or> (\<exists>p w. t = p # w \<and> terminal p \<and> (\<forall>x \<in> set w. isWhiteSpace x))"
    unfolding sentence_shape_def by blast
  from t show ?thesis
  proof
    assume "t = []"
    then have "m = a" using m by simp
    have "set (trim m) \<subseteq> set m"
    proof
      fix x assume "x \<in> set (trim m)"
      then have "x \<in> set (dropWhile isWhiteSpace (rev (dropWhile isWhiteSpace m)))"
        unfolding trim_def by simp
      then have "x \<in> set (rev (dropWhile isWhiteSpace m))" by (rule set_dropWhileD)
      then have "x \<in> set (dropWhile isWhiteSpace m)" by simp
      then show "x \<in> set m" by (rule set_dropWhileD)
    qed
    then have "\<forall>x \<in> set (trim m). \<not> terminal x"
      using a \<open>m = a\<close> by blast
    then show ?thesis by (meson in_set_butlastD)
  next
    assume "\<exists>p w. t = p # w \<and> terminal p \<and> (\<forall>x \<in> set w. isWhiteSpace x)"
    then obtain p w where t: "t = p # w" and p: "terminal p" and w: "\<forall>x \<in> set w. isWhiteSpace x"
      by blast
    have pw: "\<not> isWhiteSpace p" using p by (rule terminal_not_ws)
    let ?a' = "dropWhile isWhiteSpace a"
    have d: "dropWhile isWhiteSpace m = ?a' @ p # w"
      unfolding m t using pw by (simp add: dropWhile_append)
    have "rev (?a' @ p # w) = rev w @ p # rev ?a'" by simp
    moreover have "dropWhile isWhiteSpace (rev w @ p # rev ?a') = p # rev ?a'"
      using w pw by (simp add: dropWhile_append)
    ultimately have "trim m = ?a' @ [p]"
      unfolding trim_def d by simp
    then have "butlast (trim m) = ?a'" by simp
    moreover have "\<forall>x \<in> set ?a'. \<not> terminal x"
      using a by (meson set_dropWhileD)
    ultimately show ?thesis by simp
  qed
qed

lemma shape_ends_nonblank:
  assumes "sentence_shape m"
  shows "trim m \<noteq> [] \<or> (\<forall>x \<in> set m. \<not> terminal x)"
proof -
  from assms obtain a t where m: "m = a @ t" and a: "a \<noteq> []" "\<forall>x \<in> set a. \<not> terminal x"
    and t: "t = [] \<or> (\<exists>p w. t = p # w \<and> terminal p \<and> (\<forall>x \<in> set w. isWhiteSpace x))"
    unfolding sentence_shape_def by blast
  from t show ?thesis
  proof
    assume "t = []"
    with m a show ?thesis by simp
  next
    assume "\<exists>p w. t = p # w \<and> terminal p \<and> (\<forall>x \<in> set w. isWhiteSpace x)"
    then obtain p w where "t = p # w" "terminal p" by blast
    then have "p \<in> set m" "\<not> isWhiteSpace p" using m terminal_not_ws by auto
    then have "\<not> list_all isWhiteSpace m" by (auto simp: list_all_iff)
    then show ?thesis by (simp add: trim_Nil_iff)
  qed
qed

lemma last_dropWhile: "dropWhile P xs \<noteq> [] \<Longrightarrow> last (dropWhile P xs) = last xs"
proof -
  assume n: "dropWhile P xs \<noteq> []"
  have "last xs = last (takeWhile P xs @ dropWhile P xs)" by simp
  also have "\<dots> = last (dropWhile P xs)" using n by (rule last_appendR)
  finally show ?thesis by (rule sym)
qed

lemma trim_sentence:
  assumes "terminal p" "\<forall>x \<in> set w. isWhiteSpace x"
  shows "trim (a @ p # w) = dropWhile isWhiteSpace a @ [p]"
proof -
  have pw: "\<not> isWhiteSpace p" using assms(1) by (rule terminal_not_ws)
  let ?a' = "dropWhile isWhiteSpace a"
  have d: "dropWhile isWhiteSpace (a @ p # w) = ?a' @ p # w"
    using pw by (simp add: dropWhile_append)
  have "rev (?a' @ p # w) = rev w @ p # rev ?a'" by simp
  moreover have "dropWhile isWhiteSpace (rev w @ p # rev ?a') = p # rev ?a'"
    using assms(2) pw by (simp add: dropWhile_append)
  ultimately show ?thesis
    unfolding trim_def d by simp
qed

lemma nonblank_last: "s \<noteq> [] \<Longrightarrow> \<not> isWhiteSpace (last s) \<Longrightarrow> trim s \<noteq> []"
proof -
  assume "s \<noteq> []" "\<not> isWhiteSpace (last s)"
  then have "\<not> list_all isWhiteSpace s"
    using last_in_set[of s] by (auto simp: list_all_iff)
  then show ?thesis by (simp add: trim_Nil_iff)
qed

lemma nonblank_member: "x \<in> set s \<Longrightarrow> \<not> isWhiteSpace x \<Longrightarrow> trim s \<noteq> []"
  by (auto simp: trim_Nil_iff list_all_iff)

lemma matches_nonblank:
  "s = [] \<or> \<not> isWhiteSpace (last s) \<Longrightarrow>
   \<forall>m \<in> set (match_from re_sentence 0 s). trim m \<noteq> []"
proof (induction s rule: length_induct)
  case (1 s)
  show ?case
  proof (cases s)
    case Nil
    then show ?thesis by (simp add: match_from_sentence_Nil)
  next
    case (Cons c cs)
    with "1.prems" have ls: "\<not> isWhiteSpace (last s)" by simp
    show ?thesis
    proof (cases "terminal c")
      case True
      have eq: "match_from re_sentence 0 s = match_from re_sentence 0 cs"
        unfolding Cons using True by (simp only: match_from_sentence_Cons if_True)
      have "cs = [] \<or> \<not> isWhiteSpace (last cs)"
        using ls Cons by (cases cs) auto
      moreover have "length cs < length s" using Cons by simp
      ultimately show ?thesis unfolding eq using "1.IH" by blast
    next
      case False
      let ?d = "dropWhile (\<lambda>c. \<not> terminal c) cs"
      let ?rest = "sentence_rest ?d"
      have eq: "match_from re_sentence 0 s = sentence_match c cs # match_from re_sentence 0 ?rest"
        unfolding Cons using False by (simp only: match_from_sentence_Cons if_False)
      have m0: "trim (sentence_match c cs) \<noteq> []"
      proof (cases ?d)
        case Nil
        then have "takeWhile (\<lambda>c. \<not> terminal c) cs = cs"
          by (metis append_Nil2 takeWhile_dropWhile_id)
        then have "sentence_match c cs = s"
          unfolding sentence_match_def Nil Cons by simp
        then show ?thesis using ls Cons nonblank_last[of s] by simp
      next
        case (Cons p r)
        then have "terminal p" using hd_dropWhile[of "\<lambda>c. \<not> terminal c" cs] by auto
        then have "\<not> isWhiteSpace p" by (rule terminal_not_ws)
        moreover have "p \<in> set (sentence_match c cs)"
          unfolding sentence_match_def Cons by simp
        ultimately show ?thesis using nonblank_member by blast
      qed
      have r: "?rest = [] \<or> \<not> isWhiteSpace (last ?rest)"
      proof (cases ?d)
        case Nil
        show ?thesis unfolding Nil by simp
      next
        case d: (Cons p r)
        show ?thesis
        proof (cases "dropWhile isWhiteSpace r = []")
          case True
          then show ?thesis unfolding d by simp
        next
          case False
          then have "last (dropWhile isWhiteSpace r) = last r" by (rule last_dropWhile)
          moreover from False have "r \<noteq> []" by auto
          then have "last r = last ?d" unfolding d by simp
          moreover have "?d \<noteq> []" using d by simp
          then have "last ?d = last cs" by (rule last_dropWhile)
          moreover have "cs \<noteq> []" using d by auto
          then have "last cs = last s" using Cons by simp
          ultimately show ?thesis using ls unfolding d by simp
        qed
      qed
      have "length ?rest < length s" unfolding Cons by (rule sentence_rest_shorter)
      with r "1.IH" have "\<forall>m \<in> set (match_from re_sentence 0 ?rest). trim m \<noteq> []" by blast
      with m0 show ?thesis unfolding eq by simp
    qed
  qed
qed

lemma matches_exist:
  "\<exists>x \<in> set s. \<not> terminal x \<Longrightarrow> match_from re_sentence 0 s \<noteq> []"
proof (induction s)
  case Nil
  then show ?case by simp
next
  case (Cons c cs)
  show ?case
  proof (cases "terminal c")
    case True
    with Cons show ?thesis by (simp add: match_from_sentence_Cons)
  next
    case False
    then show ?thesis by (simp add: match_from_sentence_Cons)
  qed
qed

lemma split_trimmed:
  assumes "trim s = s"
  shows "splitIntoSentences s =
     (if match_all s re_sentence = [] then [s] else map trim (match_all s re_sentence))"
proof -
  have "s = [] \<or> \<not> isWhiteSpace (last s)"
    using trimmed_ends[OF assms] by blast
  then have "\<forall>m \<in> set (match_all s re_sentence). trim m \<noteq> []"
    unfolding match_all_def by (rule matches_nonblank)
  then have "filter (\<lambda>s. length s > 0) (map trim (match_all s re_sentence))
      = map trim (match_all s re_sentence)"
    by (simp add: filter_id_conv)
  then show ?thesis by (simp add: splitIntoSentences_def Let_def)
qed

lemma split_nonempty: "trim s = s \<Longrightarrow> splitIntoSentences s \<noteq> []"
  by (simp add: split_trimmed)

lemma split_no_terminal:
  assumes "trim t = t" "\<forall>x \<in> set t. \<not> terminal x"
  shows "splitIntoSentences t = [t]"
proof (cases "t = []")
  case True
  then show ?thesis
    by (simp add: splitIntoSentences_def match_all_def match_from_sentence_Nil)
next
  case False
  with assms(2) have "match_all t re_sentence = [t]"
    unfolding match_all_def by (intro match_all_no_terminal)
  with assms(1) show ?thesis by (simp add: split_trimmed)
qed

lemma split_chunks_trimmed:
  assumes "trim t = t" "c \<in> set (splitIntoSentences t)"
  shows "trim c = c \<and> (t \<noteq> [] \<longrightarrow> c \<noteq> [])"
proof (cases "match_all t re_sentence = []")
  case True
  with assms show ?thesis by (simp add: split_trimmed)
next
  case False
  with assms obtain m where m: "m \<in> set (match_all t re_sentence)" and c: "c = trim m"
    by (auto simp: split_trimmed)
  have "t = [] \<or> \<not> isWhiteSpace (last t)"
    using trimmed_ends[OF assms(1)] by blast
  then have "trim m \<noteq> []"
    using m matches_nonblank unfolding match_all_def by blast
  then show ?thesis unfolding c by (simp add: trim_idem)
qed

lemma split_chunks_terminal:
  assumes "\<exists>x \<in> set t. \<not> terminal x" "c \<in> set (splitIntoSentences t)"
  shows "\<forall>x \<in> set (butlast c). \<not> terminal x"
proof -
  have ne: "match_all t re_sentence \<noteq> []"
    unfolding match_all_def using assms(1) by (rule matches_exist)
  with assms(2) obtain m where m: "m \<in> set (match_all t re_sentence)" and c: "c = trim m"
    by (auto simp: splitIntoSentences_def Let_def)
  from m have "sentence_shape m"
    using matches_shape unfolding match_all_def by blast
  then show ?thesis unfolding c by (rule trim_shape)
qed

lemma split_two:
  assumes a: "a \<noteq> []" "trim a = a" "\<forall>x \<in> set a. \<not> terminal x"
    and b: "b \<noteq> []" "trim b = b" "\<forall>x \<in> set b. \<not> terminal x"
    and p: "terminal p"
  shows "splitIntoSentences (a @ p # 0x20 # b) = [a @ [p], b]"
proof -
  from a obtain c a' where ac: "a = c # a'" by (cases a) auto
  from b obtain x b' where bx: "b = x # b'" by (cases b) auto
  have c: "\<not> terminal c" and a': "\<forall>x \<in> set a'. \<not> terminal x" using a ac by auto
  have xw: "\<not> isWhiteSpace x" using trimmed_ends[OF b(2)] bx by simp
  have cw: "\<not> isWhiteSpace c" using trimmed_ends[OF a(2)] ac by simp
  have sp: "isWhiteSpace 0x20" by (simp add: isWhiteSpace_def)
  let ?cs = "a' @ p # 0x20 # b"
  have tw: "takeWhile (\<lambda>c. \<not> terminal c) ?cs = a'"
    using a' p by (simp add: takeWhile_append2)
  have dw: "dropWhile (\<lambda>c. \<not> terminal c) ?cs = p # 0x20 # b"
    using a' p by (simp add: dropWhile_append2)
  have "sentence_match c ?cs = c # a' @ sentence_tail (p # 0x20 # b)"
    unfolding sentence_match_def tw dw ..
  then have sm: "sentence_match c ?cs = a @ p # [0x20]"
    using xw sp by (simp add: ac bx)
  have "sentence_rest (dropWhile (\<lambda>c. \<not> terminal c) ?cs) = sentence_rest (p # 0x20 # b)"
    unfolding dw ..
  then have sr: "sentence_rest (dropWhile (\<lambda>c. \<not> terminal c) ?cs) = b"
    using xw sp by (simp add: bx)
  have mb: "match_from re_sentence 0 b = [b]"
    using b by (intro match_all_no_terminal)
  have "match_from re_sentence 0 (a @ p # 0x20 # b) = [a @ p # [0x20], b]"
    unfolding ac append_Cons match_from_sentence_Cons sr mb sm[unfolded ac]
    using c by simp
  moreover have "trim (a @ p # [0x20]) = a @ [p]"
    using trim_sentence[of p "[0x20]" a] p sp cw ac by simp
  ultimately show ?thesis
    using b(1,2) by (simp add: splitIntoSentences_def match_all_def Let_def)
qed

declare segments.simps [simp del]

lemma matches_segments: "match_from re_sentence 0 s = segments s"
proof (induction s rule: length_induct)
  case (1 s)
  show ?case
  proof (cases s)
    case Nil
    then show ?thesis by (simp add: match_from_sentence_Nil segments.simps)
  next
    case (Cons c cs)
    show ?thesis
    proof (cases "terminal c")
      case True
      have "length cs < length s" using Cons by simp
      with 1 have "match_from re_sentence 0 cs = segments cs" by blast
      then show ?thesis
        unfolding Cons using True by (simp add: match_from_sentence_Cons segments.simps)
    next
      case False
      let ?d = "dropWhile (\<lambda>c. \<not> terminal c) cs"
      have eq: "match_from re_sentence 0 (c # cs)
          = sentence_match c cs # match_from re_sentence 0 (sentence_rest ?d)"
        using False by (simp only: match_from_sentence_Cons if_False)
      show ?thesis
      proof (cases ?d)
        case Nil
        then have tw: "takeWhile (\<lambda>c. \<not> terminal c) cs = cs"
          by (metis append_Nil2 takeWhile_dropWhile_id)
        have "sentence_match c cs = c # cs"
          unfolding sentence_match_def Nil tw by simp
        moreover have "sentence_rest ?d = []" unfolding Nil by simp
        moreover have "segments (c # cs) = [c # cs]"
          by (simp only: segments.simps False if_False Nil list.case)
        ultimately show ?thesis
          unfolding Cons eq by (simp add: match_from_sentence_Nil)
      next
        case d: (Cons p r)
        have "length (dropWhile isWhiteSpace r) < length s"
          unfolding Cons using segments_termination[OF d] by simp
        with 1 have ih: "match_from re_sentence 0 (dropWhile isWhiteSpace r)
            = segments (dropWhile isWhiteSpace r)" by blast
        have "sentence_match c cs = c # takeWhile (\<lambda>c. \<not> terminal c) cs @ p # takeWhile isWhiteSpace r"
          unfolding sentence_match_def d by simp
        moreover have "sentence_rest ?d = dropWhile isWhiteSpace r" unfolding d by simp
        moreover have "segments (c # cs)
            = (c # takeWhile (\<lambda>c. \<not> terminal c) cs @ p # takeWhile isWhiteSpace r)
              # segments (dropWhile isWhiteSpace r)"
          by (simp only: segments.simps False if_False d list.case)
        ultimately show ?thesis
          unfolding Cons eq using ih by simp
      qed
    qed
  qed
qed

lemma segments_all_terminal: "list_all terminal s \<Longrightarrow> segments s = []"
  by (induction s) (auto simp: segments.simps)

lemma split_segments:
  assumes "trim t = t"
  shows "splitIntoSentences t = (if list_all terminal t then [t] else map trim (segments t))"
proof (cases "list_all terminal t")
  case True
  then have "match_all t re_sentence = []"
    unfolding match_all_def matches_segments by (rule segments_all_terminal)
  with True show ?thesis by (simp add: splitIntoSentences_def)
next
  case False
  then have "\<exists>x \<in> set t. \<not> terminal x" by (simp add: list_all_iff)
  then have "match_all t re_sentence \<noteq> []"
    unfolding match_all_def by (rule matches_exist)
  with False show ?thesis
    using split_trimmed[OF assms] by (simp add: match_all_def matches_segments)
qed

lemma takeWhile_one: "T = [] \<or> \<not> P (hd T) \<Longrightarrow> P x \<Longrightarrow> takeWhile P (x # T) = [x]"
  by (cases T) auto

lemma dropWhile_one: "T = [] \<or> \<not> P (hd T) \<Longrightarrow> P x \<Longrightarrow> dropWhile P (x # T) = T"
  by (cases T) auto

lemma segments_sentences:
  assumes "\<forall>(a, p) \<in> set xs. plain_sentence a \<and> terminal p"
    and "rest = [] \<or> \<not> isWhiteSpace (hd rest)"
  shows "segments (concat (map (\<lambda>(a, p). a @ [p, 0x20]) xs) @ rest)
       = map (\<lambda>(a, p). a @ [p, 0x20]) xs @ segments rest"
  using assms(1)
proof (induction xs)
  case Nil
  then show ?case by simp
next
  case (Cons x xs)
  obtain a p where x: "x = (a, p)" by (cases x)
  with Cons.prems have a: "plain_sentence a" and p: "terminal p" by auto
  from a obtain c a' where ac: "a = c # a'" by (cases a) (auto simp: plain_sentence_def)
  have c: "\<not> terminal c" and a': "\<forall>x \<in> set a'. \<not> terminal x"
    using a ac by (auto simp: plain_sentence_def list_all_iff)
  let ?T = "concat (map (\<lambda>(a, p). a @ [p, 0x20]) xs) @ rest"
  have ih: "segments ?T = map (\<lambda>(a, p). a @ [p, 0x20]) xs @ segments rest"
    using Cons by simp
  have hdT: "?T = [] \<or> \<not> isWhiteSpace (hd ?T)"
  proof (cases xs)
    case Nil
    then show ?thesis using assms(2) by simp
  next
    case (Cons y ys)
    obtain b q where y: "y = (b, q)" by (cases y)
    with Cons Cons.prems have "plain_sentence b" by auto
    then have "b \<noteq> []" "\<not> isWhiteSpace (hd b)"
      using trimmed_ends[of b] by (auto simp: plain_sentence_def)
    then show ?thesis unfolding Cons y by simp
  qed
  have sp: "isWhiteSpace 0x20" by (simp add: isWhiteSpace_def)
  have tw: "takeWhile (\<lambda>x. \<not> terminal x) (a' @ p # 0x20 # ?T) = a'"
    using a' p by (simp add: takeWhile_append2)
  have dw: "dropWhile (\<lambda>x. \<not> terminal x) (a' @ p # 0x20 # ?T) = p # 0x20 # ?T"
    using a' p by (simp add: dropWhile_append2)
  have twT: "takeWhile isWhiteSpace (0x20 # ?T) = [0x20]"
    using hdT sp by (rule takeWhile_one)
  have dwT: "dropWhile isWhiteSpace (0x20 # ?T) = ?T"
    using hdT sp by (rule dropWhile_one)
  have "segments (c # a' @ p # 0x20 # ?T) = (c # a' @ p # [0x20]) # segments ?T"
    using c by (simp only: segments.simps if_False dw tw list.case twT dwT)
  then show ?case
    unfolding x ac using ih by simp
qed

lemma segments_plain: "plain_sentence b \<Longrightarrow> segments b = [b]"
proof -
  assume b: "plain_sentence b"
  then have "\<forall>x \<in> set b. \<not> terminal x" "b \<noteq> []"
    by (auto simp: plain_sentence_def list_all_iff)
  then have "match_from re_sentence 0 b = [b]" by (rule match_all_no_terminal)
  then show ?thesis by (simp add: matches_segments)
qed

lemma segments_marked:
  assumes "plain_sentence a" "terminal p"
  shows "segments (a @ [p]) = [a @ [p]]"
proof -
  from assms obtain c a' where ac: "a = c # a'" by (cases a) (auto simp: plain_sentence_def)
  have c: "\<not> terminal c" and a': "\<forall>x \<in> set a'. \<not> terminal x"
    using assms ac by (auto simp: plain_sentence_def list_all_iff)
  have tw: "takeWhile (\<lambda>x. \<not> terminal x) (a' @ [p]) = a'"
    using a' assms(2) by (simp add: takeWhile_append2)
  have dw: "dropWhile (\<lambda>x. \<not> terminal x) (a' @ [p]) = [p]"
    using a' assms(2) by (simp add: dropWhile_append2)
  have "segments (c # a' @ [p]) = [c # a' @ [p]]"
    using c by (simp add: segments.simps dw tw)
  then show ?thesis unfolding ac by simp
qed

lemma trim_plain_marked:
  assumes "plain_sentence a" "terminal p"
  shows "trim (a @ [p, 0x20]) = a @ [p]" "trim (a @ [p]) = a @ [p]"
proof -
  have hd: "dropWhile isWhiteSpace a = a"
    using assms(1) trimmed_ends[of a] by (intro dropWhile_hd) (auto simp: plain_sentence_def)
  have sp: "\<forall>x \<in> set [0x20::jschar]. isWhiteSpace x" by (simp add: isWhiteSpace_def)
  show "trim (a @ [p, 0x20]) = a @ [p]"
    using trim_sentence[OF assms(2) sp, of a] hd by simp
  show "trim (a @ [p]) = a @ [p]"
    using trim_sentence[OF assms(2), of "[]" a] hd by simp
qed

lemma map_trim_sentences:
  "\<forall>(a, p) \<in> set xs. plain_sentence a \<and> terminal p \<Longrightarrow>
   map trim (map (\<lambda>(a, p). a @ [p, 0x20]) xs) = map (\<lambda>(a, p). a @ [p]) xs"
  by (induction xs) (auto simp: trim_plain_marked)

lemma split_by_filter:
  "ms \<noteq> [] \<Longrightarrow> match_all t re_sentence = ms \<Longrightarrow> \<forall>c \<in> set cs. c \<noteq> [] \<Longrightarrow> map trim ms = cs \<Longrightarrow>
   splitIntoSentences t = cs"
  by (auto simp: splitIntoSentences_def Let_def filter_id_conv)

lemma split_sentences_marked:
  assumes "\<forall>(a, p) \<in> set xs. plain_sentence a \<and> terminal p" "plain_sentence a" "terminal p"
  shows "splitIntoSentences (concat (map (\<lambda>(a, p). a @ [p, 0x20]) xs) @ a @ [p])
       = map (\<lambda>(a, p). a @ [p]) xs @ [a @ [p]]"
proof -
  have hd: "a @ [p] = [] \<or> \<not> isWhiteSpace (hd (a @ [p]))"
    using assms(2) trimmed_ends[of a] by (cases a) (auto simp: plain_sentence_def)
  have m: "match_all (concat (map (\<lambda>(a, p). a @ [p, 0x20]) xs) @ a @ [p]) re_sentence
      = map (\<lambda>(a, p). a @ [p, 0x20]) xs @ [a @ [p]]"
    unfolding match_all_def matches_segments
    using segments_sentences[OF assms(1) hd] segments_marked[OF assms(2,3)] by simp
  show ?thesis
  proof (rule split_by_filter[OF _ m])
    show "map (\<lambda>(a, p). a @ [p, 0x20]) xs @ [a @ [p]] \<noteq> []" by simp
    show "\<forall>c \<in> set (map (\<lambda>(a, p). a @ [p]) xs @ [a @ [p]]). c \<noteq> []" by auto
    show "map trim (map (\<lambda>(a, p). a @ [p, 0x20]) xs @ [a @ [p]])
        = map (\<lambda>(a, p). a @ [p]) xs @ [a @ [p]]"
      using map_trim_sentences[OF assms(1)] trim_plain_marked(2)[OF assms(2,3)] by simp
  qed
qed

lemma split_sentences_open:
  assumes "\<forall>(a, p) \<in> set xs. plain_sentence a \<and> terminal p" "plain_sentence b"
  shows "splitIntoSentences (concat (map (\<lambda>(a, p). a @ [p, 0x20]) xs) @ b)
       = map (\<lambda>(a, p). a @ [p]) xs @ [b]"
proof -
  have hd: "b = [] \<or> \<not> isWhiteSpace (hd b)"
    using assms(2) trimmed_ends[of b] by (auto simp: plain_sentence_def)
  have m: "match_all (concat (map (\<lambda>(a, p). a @ [p, 0x20]) xs) @ b) re_sentence
      = map (\<lambda>(a, p). a @ [p, 0x20]) xs @ [b]"
    unfolding match_all_def matches_segments
    using segments_sentences[OF assms(1) hd] segments_plain[OF assms(2)] by simp
  show ?thesis
  proof (rule split_by_filter[OF _ m])
    show "map (\<lambda>(a, p). a @ [p, 0x20]) xs @ [b] \<noteq> []" by simp
    show "\<forall>c \<in> set (map (\<lambda>(a, p). a @ [p]) xs @ [b]). c \<noteq> []"
      using assms(2) by (auto simp: plain_sentence_def)
    show "map trim (map (\<lambda>(a, p). a @ [p, 0x20]) xs @ [b]) = map (\<lambda>(a, p). a @ [p]) xs @ [b]"
      using map_trim_sentences[OF assms(1)] assms(2) by (simp add: plain_sentence_def)
  qed
qed

text \<open>
  Claim C6, amended. For a normalised (trimmed) text \<open>t\<close>: when \<open>t\<close> has no character
  other than terminal punctuation (the empty text too) the only chunk is \<open>t\<close>; otherwise
  the chunks are the segments of \<open>t\<close>, each trimmed, in order, and each chunk is trimmed,
  not empty, and has a terminal mark at most as its last character. A text without
  terminal punctuation is its own only chunk. Sentences without inner punctuation, each
  closed by one terminal mark and separated by one space, are returned one by one, with
  their marks, whether or not the last one has a mark; the example of the specification
  gives its three sentences.
\<close>

theorem splitIntoSentences_segments:
  "(trim t = t \<longrightarrow>
      splitIntoSentences t = (if list_all terminal t then [t] else map trim (segments t)) \<and>
      (\<not> list_all terminal t \<longrightarrow>
         (\<forall>c \<in> set (splitIntoSentences t).
            trim c = c \<and> c \<noteq> [] \<and> (\<forall>x \<in> set (butlast c). \<not> terminal x))) \<and>
      ((\<forall>x \<in> set t. \<not> terminal x) \<longrightarrow> splitIntoSentences t = [t])) \<and>
   ((\<forall>(a, p) \<in> set xs. plain_sentence a \<and> terminal p) \<and> plain_sentence a \<and> terminal p \<longrightarrow>
      splitIntoSentences (concat (map (\<lambda>(a, p). a @ [p, 0x20]) xs) @ a @ [p])
        = map (\<lambda>(a, p). a @ [p]) xs @ [a @ [p]]) \<and>
   ((\<forall>(a, p) \<in> set xs. plain_sentence a \<and> terminal p) \<and> plain_sentence b \<longrightarrow>
      splitIntoSentences (concat (map (\<lambda>(a, p). a @ [p, 0x20]) xs) @ b)
        = map (\<lambda>(a, p). a @ [p]) xs @ [b]) \<and>
   splitIntoSentences (js ''Hello world. How are you? Fine!'')
     = [js ''Hello world.'', js ''How are you?'', js ''Fine!'']"
proof (intro conjI impI)
  assume "trim t = t"
  then show "splitIntoSentences t = (if list_all terminal t then [t] else map trim (segments t))"
    by (rule split_segments)
next
  assume t: "trim t = t" and n: "\<not> list_all terminal t"
  from n have ex: "\<exists>x \<in> set t. \<not> terminal x" by (simp add: list_all_iff)
  then have ne: "t \<noteq> []" by auto
  show "\<forall>c \<in> set (splitIntoSentences t).
      trim c = c \<and> c \<noteq> [] \<and> (\<forall>x \<in> set (butlast c). \<not> terminal x)"
    using split_chunks_trimmed[OF t] split_chunks_terminal[OF ex] ne by blast
next
  assume "trim t = t" "\<forall>x \<in> set t. \<not> terminal x"
  then show "splitIntoSentences t = [t]" by (rule split_no_terminal)
next
  assume "(\<forall>(a, p) \<in> set xs. plain_sentence a \<and> terminal p) \<and> plain_sentence a \<and> terminal p"
  then show "splitIntoSentences (concat (map (\<lambda>(a, p). a @ [p, 0x20]) xs) @ a @ [p])
        = map (\<lambda>(a, p). a @ [p]) xs @ [a @ [p]]"
    using split_sentences_marked by blast
next
  assume "(\<forall>(a, p) \<in> set xs. plain_sentence a \<and> terminal p) \<and> plain_sentence b"
  then show "splitIntoSentences (concat (map (\<lambda>(a, p). a @ [p, 0x20]) xs) @ b)
        = map (\<lambda>(a, p). a @ [p]) xs @ [b]"
    using split_sentences_open by blast
next
  show "splitIntoSentences (js ''Hello world. How are you? Fine!'')
     = [js ''Hello world.'', js ''How are you?'', js ''Fine!'']"
    by code_simp
qed

theorem splitIntoSentences_segments_witness:
  "trim (js ''What?! ok'') = js ''What?! ok'' \<and>
   segments (js ''What?! ok'') = [js ''What?'', js '' ok''] \<and>
   splitIntoSentences (js ''What?! ok'') = map trim (segments (js ''What?! ok'')) \<and>
   list_all (\<lambda>c. trim c = c \<and> c \<noteq> [] \<and> list_all (\<lambda>x. \<not> terminal x) (butlast c))
     (splitIntoSentences (js ''What?! ok'')) \<and>
   trim (js ''Hello world'') = js ''Hello world'' \<and>
   list_all (\<lambda>x. \<not> terminal x) (js ''Hello world'') \<and>
   splitIntoSentences (js ''Hello world'') = [js ''Hello world''] \<and>
   splitIntoSentences (concat (map (\<lambda>(a, p). a @ [p, 0x20])
        [(js ''Hello world'', 0x2E), (js ''How are you'', 0x3F)]) @ js ''Fine'' @ [0x21])
     = map (\<lambda>(a, p). a @ [p]) [(js ''Hello world'', 0x2E), (js ''How are you'', 0x3F)]
       @ [js ''Fine'' @ [0x21]] \<and>
   splitIntoSentences (concat (map (\<lambda>(a, p). a @ [p, 0x20])
        [(js ''Hello world'', 0x2E), (js ''How are you'', 0x3F)]) @ js ''Fine'')
     = map (\<lambda>(a, p). a @ [p]) [(js ''Hello world'', 0x2E), (js ''How are you'', 0x3F)]
       @ [js ''Fine'']"
proof -
  let ?t = "js ''What?! ok''"
  let ?t1 = "js ''Hello world''"
  let ?xs = "[(js ''Hello world'', 0x2E), (js ''How are you'', 0x3F)] :: (jsstring \<times> jschar) list"
  let ?a = "js ''Fine''"
  note T = splitIntoSentences_segments[of ?t ?xs ?a "0x21" ?a]
  note T1 = splitIntoSentences_segments[of ?t1 ?xs ?a "0x21" ?a]
  have tr: "trim ?t = ?t" by code_simp
  have sg: "segments ?t = [js ''What?'', js '' ok'']" by code_simp
  have nt: "\<not> list_all terminal ?t" by code_simp
  have tr1: "trim ?t1 = ?t1" by code_simp
  have nt1: "list_all (\<lambda>x. \<not> terminal x) ?t1" by code_simp
  have hx: "(\<forall>(a, p) \<in> set ?xs. plain_sentence a \<and> terminal p) \<and> plain_sentence ?a \<and> terminal 0x21"
    unfolding Ball_set by code_simp
  have hb: "(\<forall>(a, p) \<in> set ?xs. plain_sentence a \<and> terminal p) \<and> plain_sentence ?a"
    using hx by blast
  note A = T[THEN conjunct1, THEN mp, OF tr]
  have r1: "splitIntoSentences ?t = map trim (segments ?t)"
    using A[THEN conjunct1] nt by simp
  have r2a: "\<forall>c \<in> set (splitIntoSentences ?t).
      trim c = c \<and> c \<noteq> [] \<and> (\<forall>x \<in> set (butlast c). \<not> terminal x)"
    by (rule A[THEN conjunct2, THEN conjunct1, THEN mp, OF nt])
  have r2: "list_all (\<lambda>c. trim c = c \<and> c \<noteq> [] \<and> list_all (\<lambda>x. \<not> terminal x) (butlast c))
     (splitIntoSentences ?t)"
    using r2a unfolding list_all_iff by blast
  have nt1': "\<forall>x \<in> set ?t1. \<not> terminal x" using nt1 by (simp add: list_all_iff)
  have r3: "splitIntoSentences ?t1 = [?t1]"
    by (rule T1[THEN conjunct1, THEN mp, OF tr1, THEN conjunct2, THEN conjunct2, THEN mp, OF nt1'])
  note r4 = T[THEN conjunct2, THEN conjunct1, THEN mp, OF hx]
  note r5 = T[THEN conjunct2, THEN conjunct2, THEN conjunct1, THEN mp, OF hb]
  show ?thesis
    by (rule conjI[OF tr conjI[OF sg conjI[OF r1 conjI[OF r2 conjI[OF tr1 conjI[OF nt1
          conjI[OF r3 conjI[OF r4 r5]]]]]]]])
qed

text \<open>
  Claim C6, as stated, fails at two normalised texts: in \<open>What?! ok\<close> the second mark
  is attached to no chunk and is lost, and the empty text gives one empty chunk, which is
  not dropped.
\<close>

theorem splitIntoSentences_chunking_counterexample:
  "processTextForSpeech (js ''What?! ok'') = js ''What?! ok'' \<and>
   splitIntoSentences (js ''What?! ok'') = [js ''What?'', js ''ok''] \<and>
   processTextForSpeech (js ''***'') = [] \<and>
   splitIntoSentences [] = [[]]"
  by code_simp

text \<open>
  Claim C10, as stated, fails: the pattern matches a text of one space, the match is
  trimmed to the empty string and filtered out, and no chunk is left.
\<close>

theorem splitIntoSentences_blank_counterexample:
  "splitIntoSentences (js '' '') = []"
  by code_simp

lemma processTextForSpeech_trimmed: "trim (processTextForSpeech t) = processTextForSpeech t"
  by (simp add: processTextForSpeech_def Let_def trim_idem)

lemma stars: "js ''***'' \<noteq> []" "trim (js ''***'') \<noteq> []"
  "processTextForSpeech (js ''***'') = []" "splitIntoSentences [] = [[]]"
  by code_simp+

text \<open>
  Claim C10, amended. \<open>splitIntoSentences\<close> returns at least one chunk for every trimmed
  text, hence for everything \<open>processTextForSpeech\<close> returns; when the pattern finds no
  match the result is the text itself as the only chunk, so the empty text gives one empty
  chunk; and \<open>speak('***')\<close>, whose text preprocessing reduces to the empty string, builds
  a session of one utterance, which is handed to the device as the bare prefix.
\<close>

theorem splitIntoSentences_nonempty_on_trimmed:
  "(trim s = s \<longrightarrow> splitIntoSentences s \<noteq> []) \<and>
   splitIntoSentences (processTextForSpeech t) \<noteq> [] \<and>
   (match_all s re_sentence = [] \<longrightarrow> splitIntoSentences s = [s]) \<and>
   splitIntoSentences [] = [[]] \<and>
   processTextForSpeech (js ''***'') = [] \<and>
   run [CallSpeak (js ''***''), Elapse 100, TimerFires] (idle v)
     = Some ((idle v)\<lparr>now := 100, isSpeaking := True,
          utteranceQueue := [(new_utterance (idle v) [])\<lparr>utext := AUDIBLE_PREFIX\<rparr>],
          device_queue := [(new_utterance (idle v) [])\<lparr>utext := AUDIBLE_PREFIX\<rparr>],
          handed := [(100, AUDIBLE_PREFIX)]\<rparr>)"
proof (intro conjI impI)
  assume "trim s = s"
  then show "splitIntoSentences s \<noteq> []" by (rule split_nonempty)
next
  show "splitIntoSentences (processTextForSpeech t) \<noteq> []"
    using processTextForSpeech_trimmed by (rule split_nonempty)
next
  assume "match_all s re_sentence = []"
  then show "splitIntoSentences s = [s]" by (simp add: splitIntoSentences_def)
next
  show "splitIntoSentences [] = [[]]" by (rule stars)
next
  show "processTextForSpeech (js ''***'') = []" by (rule stars)
next
  show "run [CallSpeak (js ''***''), Elapse 100, TimerFires] (idle v)
     = Some ((idle v)\<lparr>now := 100, isSpeaking := True,
          utteranceQueue := [(new_utterance (idle v) [])\<lparr>utext := AUDIBLE_PREFIX\<rparr>],
          device_queue := [(new_utterance (idle v) [])\<lparr>utext := AUDIBLE_PREFIX\<rparr>],
          handed := [(100, AUDIBLE_PREFIX)]\<rparr>)"
    by (simp add: stars speak_def ready_def idle_def set_timeout_def device_cancel_def
        speak_timeout_def Let_def speakNextChunk_def device_speak_def new_utterance_def)
qed

theorem splitIntoSentences_nonempty_on_trimmed_witness:
  "trim (js ''Hi. Bye'') = js ''Hi. Bye'' \<and> splitIntoSentences (js ''Hi. Bye'') \<noteq> [] \<and>
   match_all (js ''?!'') re_sentence = [] \<and> splitIntoSentences (js ''?!'') = [js ''?!'']"
proof -
  have a: "trim (js ''Hi. Bye'') = js ''Hi. Bye''" by code_simp
  have b: "match_all (js ''?!'') re_sentence = []" by code_simp
  show ?thesis
    using splitIntoSentences_nonempty_on_trimmed[of "js ''Hi. Bye''" "[]" "\<lparr>voice_name = [], voice_lang = []\<rparr>"]
      splitIntoSentences_nonempty_on_trimmed[of "js ''?!''" "[]" "\<lparr>voice_name = [], voice_lang = []\<rparr>"]
      a b by blast
qed

section \<open>The playback controller: sessions\<close>

lemma earliest_single: "earliest [t] = Some t"
  by simp

text \<open>
  Claim C9. The device reports an error on the utterance it is speaking while the
  cancellation flag is clear: the controller reports idle, empties the queue and resets
  the cursor; no timer is set and no chunk handed over, and the next step of the playback
  loop would hand none over either. A later \<open>speak(t)\<close> with a text that is not blank,
  followed by its settle delay, starts a fresh session: the queue holds the chunks of
  \<open>t\<close>, the first with the prefix, and the first has been handed to the device.
\<close>

theorem device_error_ends_session_only:
  "\<not> isCancelling s \<and> device_queue s = u # us \<and> timers s = [] \<and> ready s \<and>
   t \<noteq> [] \<and> trim t \<noteq> [] \<longrightarrow>
   (\<exists>s1. step DeviceError s = Some s1 \<and>
      \<not> isSpeaking s1 \<and> utteranceQueue s1 = [] \<and> currentUtteranceIndex s1 = 0 \<and>
      timers s1 = [] \<and> handed s1 = handed s \<and>
      handed (speakNextChunk s1) = handed s \<and> \<not> isSpeaking (speakNextChunk s1)) \<and>
   (\<exists>s' c cs. run [DeviceError, CallSpeak t, Elapse 100, TimerFires] s = Some s' \<and>
      splitIntoSentences (processTextForSpeech t) = c # cs \<and>
      map utext (utteranceQueue s') = (AUDIBLE_PREFIX @ c) # cs \<and>
      currentUtteranceIndex s' = 0 \<and> isSpeaking s' \<and> \<not> isCancelling s' \<and>
      map utext (device_queue s') = [AUDIBLE_PREFIX @ c] \<and>
      handed s' = handed s @ [(now s + 100, AUDIBLE_PREFIX @ c)])"
proof (intro impI conjI)
  assume h: "\<not> isCancelling s \<and> device_queue s = u # us \<and> timers s = [] \<and> ready s \<and>
   t \<noteq> [] \<and> trim t \<noteq> []"
  let ?s1 = "onerror (s\<lparr>device_queue := us\<rparr>)"
  have s1: "step DeviceError s = Some ?s1" using h by simp
  have e1: "?s1 = s\<lparr>device_queue := us, isSpeaking := False, utteranceQueue := [],
      currentUtteranceIndex := 0\<rparr>"
    using h by (simp add: onerror_def)
  show "\<exists>s1. step DeviceError s = Some s1 \<and>
      \<not> isSpeaking s1 \<and> utteranceQueue s1 = [] \<and> currentUtteranceIndex s1 = 0 \<and>
      timers s1 = [] \<and> handed s1 = handed s \<and>
      handed (speakNextChunk s1) = handed s \<and> \<not> isSpeaking (speakNextChunk s1)"
    using s1 h unfolding e1 by (simp add: speakNextChunk_def)
  obtain c cs where ch: "splitIntoSentences (processTextForSpeech t) = c # cs"
    using split_nonempty[OF processTextForSpeech_trimmed, of t]
    by (cases "splitIntoSentences (processTextForSpeech t)") auto
  have r: "ready ?s1" using h unfolding e1 by (simp add: ready_def)
  let ?s2 = "set_timeout (Settle t) 100 (device_cancel (?s1\<lparr>isCancelling := True\<rparr>))"
  have s2: "speak t ?s1 = ?s2" using h r by (simp add: speak_def)
  have e2: "?s2 = s\<lparr>device_queue := [], isSpeaking := False, utteranceQueue := [],
      currentUtteranceIndex := 0, isCancelling := True,
      device_dropped := device_dropped s @ us, timers := [(now s + 100, Settle t)]\<rparr>"
    unfolding e1 using h by (simp add: set_timeout_def device_cancel_def)
  let ?s3 = "?s2\<lparr>now := now ?s2 + 100\<rparr>"
  let ?s4 = "speak_timeout t (?s3\<lparr>timers := []\<rparr>)"
  have s4: "step TimerFires ?s3 = Some ?s4"
    unfolding e2 by simp
  have run: "run [DeviceError, CallSpeak t, Elapse 100, TimerFires] s = Some ?s4"
    using s1 s2 s4 by simp
  have syn: "synthesis s" using h by (simp add: ready_def)
  have q: "map utext (utteranceQueue ?s4) = (AUDIBLE_PREFIX @ c) # cs"
    "currentUtteranceIndex ?s4 = 0" "isSpeaking ?s4" "\<not> isCancelling ?s4"
    "map utext (device_queue ?s4) = [AUDIBLE_PREFIX @ c]"
    "handed ?s4 = handed s @ [(now s + 100, AUDIBLE_PREFIX @ c)]"
    unfolding e2 using syn
    by (simp_all add: speak_timeout_def ch Let_def speakNextChunk_def device_speak_def
        new_utterance_def comp_def)
  show "\<exists>s' c cs. run [DeviceError, CallSpeak t, Elapse 100, TimerFires] s = Some s' \<and>
      splitIntoSentences (processTextForSpeech t) = c # cs \<and>
      map utext (utteranceQueue s') = (AUDIBLE_PREFIX @ c) # cs \<and>
      currentUtteranceIndex s' = 0 \<and> isSpeaking s' \<and> \<not> isCancelling s' \<and>
      map utext (device_queue s') = [AUDIBLE_PREFIX @ c] \<and>
      handed s' = handed s @ [(now s + 100, AUDIBLE_PREFIX @ c)]"
    by (intro exI[of _ ?s4] exI[of _ c] exI[of _ cs] conjI run ch q)
qed


theorem device_error_ends_session_only_witness:
  "(\<not> isCancelling speaking_two \<and>
    device_queue speaking_two = [new_utterance (idle demo_voice) (AUDIBLE_PREFIX @ js ''One.'')] \<and>
    timers speaking_two = [] \<and> ready speaking_two \<and>
    js ''Hi. Bye'' \<noteq> [] \<and> trim (js ''Hi. Bye'') \<noteq> []) \<and>
   ((\<exists>s1. step DeviceError speaking_two = Some s1 \<and>
      \<not> isSpeaking s1 \<and> utteranceQueue s1 = [] \<and> currentUtteranceIndex s1 = 0 \<and>
      timers s1 = [] \<and> handed s1 = handed speaking_two \<and>
      handed (speakNextChunk s1) = handed speaking_two \<and> \<not> isSpeaking (speakNextChunk s1)) \<and>
    (\<exists>s' c cs. run [DeviceError, CallSpeak (js ''Hi. Bye''), Elapse 100, TimerFires] speaking_two
        = Some s' \<and>
      splitIntoSentences (processTextForSpeech (js ''Hi. Bye'')) = c # cs \<and>
      map utext (utteranceQueue s') = (AUDIBLE_PREFIX @ c) # cs \<and>
      currentUtteranceIndex s' = 0 \<and> isSpeaking s' \<and> \<not> isCancelling s' \<and>
      map utext (device_queue s') = [AUDIBLE_PREFIX @ c] \<and>
      handed s' = handed speaking_two @ [(now speaking_two + 100, AUDIBLE_PREFIX @ c)])) \<and>
   (map_option (map utext \<circ> utteranceQueue)
      (run [DeviceError, CallSpeak (js ''Hi. Bye''), Elapse 100, TimerFires] speaking_two)
      = Some [AUDIBLE_PREFIX @ js ''Hi.'', js ''Bye''] \<and>
    map_option handed
      (run [DeviceError, CallSpeak (js ''Hi. Bye''), Elapse 100, TimerFires] speaking_two)
      = Some [(100, AUDIBLE_PREFIX @ js ''Hi.'')])"
proof -
  let ?u = "new_utterance (idle demo_voice) (AUDIBLE_PREFIX @ js ''One.'')"
  have h: "\<not> isCancelling speaking_two \<and> device_queue speaking_two = [?u] \<and>
      timers speaking_two = [] \<and> ready speaking_two \<and>
      js ''Hi. Bye'' \<noteq> [] \<and> trim (js ''Hi. Bye'') \<noteq> []"
    by code_simp
  note T = device_error_ends_session_only[of speaking_two ?u "[]" "js ''Hi. Bye''", THEN mp, OF h]
  have ev: "map_option (map utext \<circ> utteranceQueue)
      (run [DeviceError, CallSpeak (js ''Hi. Bye''), Elapse 100, TimerFires] speaking_two)
      = Some [AUDIBLE_PREFIX @ js ''Hi.'', js ''Bye''] \<and>
    map_option handed
      (run [DeviceError, CallSpeak (js ''Hi. Bye''), Elapse 100, TimerFires] speaking_two)
      = Some [(100, AUDIBLE_PREFIX @ js ''Hi.'')]"
    by code_simp
  show ?thesis
    by (rule conjI[OF h conjI[OF T ev]])
qed

text \<open>
  Claim C1 fails on the code. \<open>speak("A")\<close> is called, and \<open>speak("B")\<close> 10 ms later, while
  the first call waits out its settle delay. The timer of the first call is not cancelled:
  at 100 ms it clears the flag that the second call had set, builds the session of "A" and
  hands its chunk to the device, 90 ms after \<open>speak("B")\<close> was called. At 110 ms the
  timer of the second call replaces the queue and hands the chunk of "B" over as well.
  When the device has spoken the chunk of "A", its \<open>onend\<close> finds the flag clear, moves
  the cursor of the session of "B" and schedules the next step.
\<close>

theorem superseded_settle_timer_speaks:
  "map_option (\<lambda>s. (isCancelling s, handed s, map fst (timers s)))
     (run [CallSpeak (js ''A''), Elapse 10, CallSpeak (js ''B'')] (idle v))
     = Some (True, [], [100, 110]) \<and>
   map_option (\<lambda>s. (isCancelling s, handed s, map utext (device_queue s)))
     (run [CallSpeak (js ''A''), Elapse 10, CallSpeak (js ''B''), Elapse 90, TimerFires] (idle v))
     = Some (False, [(100, AUDIBLE_PREFIX @ js ''A'')], [AUDIBLE_PREFIX @ js ''A'']) \<and>
   map_option (\<lambda>s. (handed s, map utext (device_queue s), map utext (utteranceQueue s),
                    currentUtteranceIndex s))
     (run [CallSpeak (js ''A''), Elapse 10, CallSpeak (js ''B''), Elapse 90, TimerFires,
           Elapse 10, TimerFires] (idle v))
     = Some ([(100, AUDIBLE_PREFIX @ js ''A''), (110, AUDIBLE_PREFIX @ js ''B'')],
             [AUDIBLE_PREFIX @ js ''A'', AUDIBLE_PREFIX @ js ''B''],
             [AUDIBLE_PREFIX @ js ''B''], 0) \<and>
   map_option (\<lambda>s. (map utext (device_queue s), currentUtteranceIndex s, timers s))
     (run [CallSpeak (js ''A''), Elapse 10, CallSpeak (js ''B''), Elapse 90, TimerFires,
           Elapse 10, TimerFires, DeviceStart, DeviceEnd] (idle v))
     = Some ([AUDIBLE_PREFIX @ js ''B''], 1, [(160, NextChunk)])"
proof -
  have f: "js ''A'' \<noteq> []" "trim (js ''A'') \<noteq> []" "js ''B'' \<noteq> []" "trim (js ''B'') \<noteq> []"
    "splitIntoSentences (processTextForSpeech (js ''A'')) = [js ''A'']"
    "splitIntoSentences (processTextForSpeech (js ''B'')) = [js ''B'']"
    by code_simp+
  show ?thesis
    by (simp add: f speak_def ready_def idle_def set_timeout_def device_cancel_def
        speak_timeout_def Let_def speakNextChunk_def device_speak_def new_utterance_def
        onstart_def onend_def)
qed

section \<open>Regular expressions: general facts\<close>

declare replace_from.simps [simp del]

lemma replace_no_match: "no_match re s \<Longrightarrow> replace_from re rp 0 s = s"
  by (induction s) (auto simp: replace_from.simps)

lemma replace_all_no_match: "no_match re s \<Longrightarrow> replace_all s re rp = s"
  by (simp add: replace_all_def replace_no_match)

lemma rep_greedy_sound:
  "rep_greedy P n k s = Some r \<Longrightarrow>
   \<exists>w s'. s = w @ s' \<and> (\<forall>x \<in> set w. P x) \<and> n \<le> length w \<and> k s' = Some r"
proof (induction s arbitrary: n)
  case Nil
  then show ?case by (auto split: if_splits)
next
  case (Cons c cs)
  show ?case
  proof (cases "P c \<and> rep_greedy P (n - 1) k cs = Some r")
    case True
    with Cons.IH[of "n - 1"] obtain w s' where "cs = w @ s'" "\<forall>x \<in> set w. P x"
      "n - 1 \<le> length w" "k s' = Some r" by blast
    with True have "c # cs = (c # w) @ s' \<and> (\<forall>x \<in> set (c # w). P x) \<and> n \<le> length (c # w)
        \<and> k s' = Some r" by auto
    then show ?thesis by blast
  next
    case False
    with Cons.prems have "n = 0 \<and> k (c # cs) = Some r"
      by (auto split: if_splits option.splits)
    then have "c # cs = [] @ (c # cs) \<and> (\<forall>x \<in> set []. P x) \<and> n \<le> length ([]::jsstring)
        \<and> k (c # cs) = Some r" by simp
    then show ?thesis by blast
  qed
qed

lemma rep_lazy_sound:
  "rep_lazy P k s = Some r \<Longrightarrow> \<exists>w s'. s = w @ s' \<and> (\<forall>x \<in> set w. P x) \<and> k s' = Some r"
proof (induction s)
  case Nil
  then show ?case by auto
next
  case (Cons c cs)
  show ?case
  proof (cases "k (c # cs) = Some r")
    case True
    then have "c # cs = [] @ (c # cs) \<and> (\<forall>x \<in> set []. P x) \<and> k (c # cs) = Some r" by simp
    then show ?thesis by blast
  next
    case False
    with Cons.prems have "P c" "rep_lazy P k cs = Some r"
      by (auto split: if_splits option.splits)
    with Cons.IH obtain w s' where "cs = w @ s'" "\<forall>x \<in> set w. P x" "k s' = Some r" by blast
    with \<open>P c\<close> have "c # cs = (c # w) @ s' \<and> (\<forall>x \<in> set (c # w). P x) \<and> k s' = Some r" by auto
    then show ?thesis by blast
  qed
qed

lemma take_prefix_mono: "n \<le> m \<Longrightarrow> prefix (take n xs) (take m xs)"
proof -
  assume "n \<le> m"
  then have "take n xs = take n (take m xs)" by (simp add: min_def)
  then show ?thesis by (metis take_is_prefix)
qed

lemma cap_ok_suffix: "cap_ok s0 st s \<Longrightarrow> suffix s' s \<Longrightarrow> cap_ok s0 st s'"
proof -
  assume c: "cap_ok s0 st s" and s: "suffix s' s"
  have len: "length s' \<le> length s" using s by (rule suffix_length_le)
  then have "length s0 - length s \<le> length s0 - length s'" by simp
  then have p: "prefix (take (length s0 - length s) s0) (take (length s0 - length s') s0)"
    by (rule take_prefix_mono)
  have sub: "\<And>g. subseq g (take (length s0 - length s) s0) \<Longrightarrow>
      subseq g (take (length s0 - length s') s0)"
    using p by (meson prefix_imp_subseq subseq_order.trans)
  have a: "suffix s' s0" using c s unfolding cap_ok_def by (meson suffix_order.trans)
  have b: "fst st = [] \<or> (suffix (fst st) s0 \<and> suffix s' (fst st))"
    using c s unfolding cap_ok_def by (meson suffix_order.trans)
  have d: "\<forall>g. snd st = Some g \<longrightarrow> subseq g (take (length s0 - length s') s0)"
    using c sub unfolding cap_ok_def by blast
  show ?thesis unfolding cap_ok_def using a b d by blast
qed

lemma cap_ok_open: "cap_ok s0 st s \<Longrightarrow> cap_ok s0 (s, snd st) s"
  by (simp add: cap_ok_def)

lemma cap_ok_close:
  assumes "cap_ok s0 st s"
  shows "cap_ok s0 (fst st, Some (take (length (fst st) - length s) (fst st))) s"
proof (cases "fst st = []")
  case True
  with assms show ?thesis by (simp add: cap_ok_def)
next
  case False
  with assms have a: "suffix (fst st) s0" "suffix s (fst st)" "suffix s s0"
    by (auto simp: cap_ok_def)
  from a(2) obtain g where g: "fst st = g @ s" by (auto simp: suffix_def)
  from a(1) obtain p where p: "s0 = p @ fst st" by (auto simp: suffix_def)
  have t: "take (length (fst st) - length s) (fst st) = g" unfolding g by simp
  have c: "take (length s0 - length s) s0 = p @ g" unfolding p g by simp
  have "subseq g (p @ g)" by (simp add: list_emb_append2)
  with a False show ?thesis unfolding cap_ok_def t c by simp
qed

lemma cap_ok_tl: "cap_ok s0 st (c # cs) \<Longrightarrow> cap_ok s0 st cs"
  by (rule cap_ok_suffix[of s0 st "c # cs"]) (simp_all add: suffix_ConsI)

lemma cap_ok_drop: "cap_ok s0 st (w @ s') \<Longrightarrow> cap_ok s0 st s'"
  by (rule cap_ok_suffix[of s0 st "w @ s'"]) (simp_all add: suffixI)

lemma rx_seq_Chr:
  "rx_seq (Chr P # as) st s = Some r \<Longrightarrow> \<exists>c cs. s = c # cs \<and> rx_seq as st cs = Some r"
  by (cases s) (simp_all split: if_splits)

lemma rx_seq_Opt:
  "rx_seq (Opt P # as) st s = Some r \<Longrightarrow>
   rx_seq as st s = Some r \<or> (\<exists>c cs. s = c # cs \<and> rx_seq as st cs = Some r)"
proof (cases s)
  case Nil
  assume "rx_seq (Opt P # as) st s = Some r"
  with Nil show ?thesis by simp
next
  case (Cons c cs)
  assume a: "rx_seq (Opt P # as) st s = Some r"
  show ?thesis
  proof (cases "P c")
    case False
    with a Cons show ?thesis by simp
  next
    case True
    show ?thesis
    proof (cases "rx_seq as st cs")
      case None
      with a Cons True show ?thesis by simp
    next
      case (Some r')
      with a Cons True have "r' = r" by simp
      with Some Cons show ?thesis by simp
    qed
  qed
qed

lemma rx_seq_cap:
  "cap_ok s0 st s \<Longrightarrow> rx_seq as st s = Some (st', rest) \<Longrightarrow> cap_ok s0 st' rest"
proof (induction as arbitrary: st s)
  case Nil
  then show ?case by simp
next
  case (Cons a as)
  show ?case
  proof (cases a)
    case (Chr P)
    from Cons.prems(2) obtain c cs where s: "s = c # cs" and r: "rx_seq as st cs = Some (st', rest)"
      unfolding Chr using rx_seq_Chr by blast
    have "cap_ok s0 st cs" using Cons.prems(1) unfolding s by (rule cap_ok_tl)
    then show ?thesis using r by (rule Cons.IH)
  next
    case (Opt P)
    from Cons.prems(2) have "rx_seq as st s = Some (st', rest) \<or>
        (\<exists>c cs. s = c # cs \<and> rx_seq as st cs = Some (st', rest))"
      unfolding Opt by (rule rx_seq_Opt)
    then show ?thesis
    proof
      assume "rx_seq as st s = Some (st', rest)"
      with Cons.prems(1) show ?thesis by (rule Cons.IH)
    next
      assume "\<exists>c cs. s = c # cs \<and> rx_seq as st cs = Some (st', rest)"
      then obtain c cs where s: "s = c # cs" and r: "rx_seq as st cs = Some (st', rest)" by blast
      have "cap_ok s0 st cs" using Cons.prems(1) unfolding s by (rule cap_ok_tl)
      then show ?thesis using r by (rule Cons.IH)
    qed
  next
    case (Rep P n)
    from Cons.prems(2) have "rep_greedy P n (rx_seq as st) s = Some (st', rest)"
      unfolding Rep by simp
    from rep_greedy_sound[OF this] obtain w s' where s: "s = w @ s'"
      and r: "rx_seq as st s' = Some (st', rest)" by blast
    have "cap_ok s0 st s'" using Cons.prems(1) unfolding s by (rule cap_ok_drop)
    then show ?thesis using r by (rule Cons.IH)
  next
    case (RepLazy P)
    from Cons.prems(2) have "rep_lazy P (rx_seq as st) s = Some (st', rest)"
      unfolding RepLazy by simp
    from rep_lazy_sound[OF this] obtain w s' where s: "s = w @ s'"
      and r: "rx_seq as st s' = Some (st', rest)" by blast
    have "cap_ok s0 st s'" using Cons.prems(1) unfolding s by (rule cap_ok_drop)
    then show ?thesis using r by (rule Cons.IH)
  next
    case GOpen
    from Cons.prems(2) have r: "rx_seq as (s, snd st) s = Some (st', rest)"
      unfolding GOpen by simp
    from cap_ok_open[OF Cons.prems(1)] r show ?thesis by (rule Cons.IH)
  next
    case GClose
    from Cons.prems(2) have r: "rx_seq as (fst st, Some (take (length (fst st) - length s) (fst st))) s
        = Some (st', rest)"
      unfolding GClose by simp
    from cap_ok_close[OF Cons.prems(1)] r show ?thesis by (rule Cons.IH)
  qed
qed

lemma rx_exec_cap:
  "rx_exec re s = Some (st, rest) \<Longrightarrow> cap_ok s st rest"
proof (induction re)
  case Nil
  then show ?case by simp
next
  case (Cons alt alts)
  show ?case
  proof (cases "rx_seq alt ([], None) s")
    case None
    with Cons show ?thesis by simp
  next
    case (Some r)
    with Cons.prems have "rx_seq alt ([], None) s = Some (st, rest)" by simp
    moreover have "cap_ok s ([], None) s" by (simp add: cap_ok_def)
    ultimately show ?thesis by (rule rx_seq_cap[rotated])
  qed
qed

lemma rx_exec_suffix: "rx_exec re s = Some (st, rest) \<Longrightarrow> suffix rest s"
  using rx_exec_cap by (auto simp: cap_ok_def)






section \<open>The response formatter: text that is already clean\<close>

lemma strip_html_clean:
  "list_all (\<lambda>re. no_match re x) markup_patterns \<Longrightarrow> strip_html x = x"
  by (simp add: markup_patterns_def strip_html_def Let_def replace_all_no_match)

lemma strip_markdown_clean:
  "list_all (\<lambda>re. no_match re x) markup_patterns \<Longrightarrow> strip_markdown x = x"
  by (simp add: markup_patterns_def strip_markdown_def Let_def replace_all_no_match)

lemma unescape_clean:
  "no_match re_esc_n x \<Longrightarrow> no_match re_esc_quote x \<Longrightarrow> unescape x = x"
  by (simp add: unescape_def replace_all_no_match)

lemma clean_fixed:
  assumes "clean_text x" "\<not> startsWith x (js ''Response:'')" "\<not> startsWith (trim x) (js ''{'')"
    "no_match re_esc_n x" "no_match re_esc_quote x"
  shows "cleanHtmlAndFormatText x = x"
proof -
  have m: "list_all (\<lambda>re. no_match re x) markup_patterns" and n: "no_match re_newlines3 x"
    and t: "trim x = x"
    using assms(1) by (simp_all add: clean_text_def)
  have 1: "strip_label x = x" using assms(2) by (simp add: strip_label_def)
  have 2: "extract_output x = x" using assms(3) by (simp add: extract_output_def)
  have 3: "unescape x = x" using assms(4,5) by (rule unescape_clean)
  have 4: "strip_html x = x" using m by (rule strip_html_clean)
  have 5: "strip_markdown x = x" using m by (rule strip_markdown_clean)
  have 6: "replace_all x re_newlines3 (Str [NEWLINE, NEWLINE]) = x"
    using n by (rule replace_all_no_match)
  show ?thesis
    unfolding cleanHtmlAndFormatText_def Let_def 1 2 3 4 5 6 t ..
qed

text \<open>
  Claim C7, as stated, fails: the text \<open>Response: Response: hi\<close> has no markup and is
  normalised; one call strips one label, the next call strips the other. An escaped quote
  is unescaped once per call in the same way.
\<close>

theorem format_label_counterexample:
  "clean_text (js ''Response: Response: hi'') \<and>
   format (\<lambda>l. l) (js ''Response: Response: hi'') = Inr (js ''Response: hi'') \<and>
   format_twice (\<lambda>l. l) (js ''Response: Response: hi'') = Inr (js ''hi'') \<and>
   clean_text [0x61, BACKSLASH, BACKSLASH, QUOTE, 0x62] \<and>
   format (\<lambda>l. l) [0x61, BACKSLASH, BACKSLASH, QUOTE, 0x62] = Inr [0x61, BACKSLASH, QUOTE, 0x62] \<and>
   format_twice (\<lambda>l. l) [0x61, BACKSLASH, BACKSLASH, QUOTE, 0x62] = Inr [0x61, QUOTE, 0x62]"
  by code_simp

text \<open>
  Claim C7, amended. A non-empty text that is free of markup and normalised, that does not
  start with the label \<open>Response:\<close> nor look like JSON (\<open>{\<close> or \<open>[\<close> first), and that
  holds no escaped \<open>\n\<close> or \<open>\"\<close>, is returned unchanged by \<open>format\<close>; formatting it twice
  gives what formatting it once gives.
\<close>

theorem format_idempotent_on_clean_text:
  "clean_text x \<and> \<not> startsWith x (js ''Response:'') \<and> \<not> looks_like_json x \<and>
   no_match re_esc_n x \<and> no_match re_esc_quote x \<longrightarrow>
   format num x = Inr x \<and> format_twice num x = format num x"
proof
  assume h: "clean_text x \<and> \<not> startsWith x (js ''Response:'') \<and> \<not> looks_like_json x \<and>
   no_match re_esc_n x \<and> no_match re_esc_quote x"
  then have nj: "\<not> startsWith (trim x) (js ''{'')" by (simp add: looks_like_json_def)
  have c: "cleanHtmlAndFormatText x = x"
    using h nj by (intro clean_fixed) simp_all
  have ne: "x \<noteq> []" "trim x \<noteq> []" using h by (auto simp: clean_text_def)
  have f: "format num x = Inr x"
    using h ne c by (simp add: format_def formatResponseText_def)
  then show "format num x = Inr x \<and> format_twice num x = format num x"
    by (simp add: format_twice_def)
qed

theorem format_idempotent_on_clean_text_witness:
  "clean_text (js ''Hello, world: 3 < 4'') \<and>
   \<not> startsWith (js ''Hello, world: 3 < 4'') (js ''Response:'') \<and>
   \<not> looks_like_json (js ''Hello, world: 3 < 4'') \<and>
   no_match re_esc_n (js ''Hello, world: 3 < 4'') \<and>
   no_match re_esc_quote (js ''Hello, world: 3 < 4'') \<and>
   format (\<lambda>l. l) (js ''Hello, world: 3 < 4'') = Inr (js ''Hello, world: 3 < 4'') \<and>
   format_twice (\<lambda>l. l) (js ''Hello, world: 3 < 4'') = format (\<lambda>l. l) (js ''Hello, world: 3 < 4'')"
proof -
  let ?x = "js ''Hello, world: 3 < 4''"
  have h: "clean_text ?x \<and> \<not> startsWith ?x (js ''Response:'') \<and> \<not> looks_like_json ?x \<and>
      no_match re_esc_n ?x \<and> no_match re_esc_quote ?x"
    by code_simp
  note T = format_idempotent_on_clean_text[of ?x "\<lambda>l. l", THEN mp, OF h]
  show ?thesis
    using h T by (elim conjE) (intro conjI)
qed

section \<open>The response formatter: the output fallback\<close>

















section \<open>The response formatter: what the reply never holds\<close>












lemma lead_prefix:
  "prefix (NEWLINE # ys) x \<Longrightarrow> Suc (length (takeWhile (is_char NEWLINE) (drop 1 x))) = length (takeWhile (is_char NEWLINE) x)"
  by (cases x) (auto simp: is_char_def)




















end
